theory Spec2Isabelle
  imports Main "HOL-Library.Word"
begin

section \<open>The per-pipe engine of netpipefs (src/netpipe.c)\<close>

text \<open>
  The model follows \<^verbatim>\<open>src/netpipe.c\<close> function by function. Conventions:
  \<^item> \<^verbatim>\<open>size_t\<close> is a 64-bit word, so subtraction and addition wrap as in C;
    \<^verbatim>\<open>int\<close> and \<^verbatim>\<open>ssize_t\<close> results are \<open>int\<close> (a \<^verbatim>\<open>size_t\<close> returned as
    \<^verbatim>\<open>ssize_t\<close> is read back with \<open>sint\<close>).
  \<^item> Only byte counts are modelled, not the payload: the circular buffer is its size and
    capacity, a request is its size, progress counter and error slot.
  \<^item> Request objects live in a store \<open>heap\<close> indexed by address, because the queue and
    the blocked caller hold pointers to the same object.
  \<^item> Everything a call sends on the socket, every condition variable it broadcasts and
    every poll notification is appended to \<open>trace\<close>.
  \<^item> The outcome of the k-th socket call is \<open>io f k\<close>; \<open>ncalls\<close> counts the calls made.
  \<^item> \<open>errno_var\<close> is \<^verbatim>\<open>errno\<close>: \<open>None\<close> until something sets it.
  \<^item> The pthread calls (lock, unlock, broadcast, wait) and \<^verbatim>\<open>malloc\<close> are taken to succeed.
\<close>

type_synonym size_t = "64 word"

datatype errno = EPERM | ENOENT | EAGAIN | EPIPE | ECONNRESET | EIO

datatype io_result = IoOk | IoLost | IoErr errno

datatype cond = CanOpen | Wr | Rd

datatype event =
    SendOpen int
  | SendClose int
  | SendWrite size_t
  | SendFlush size_t
  | SendRead size_t
  | SendReadRequest size_t
  | ReadSocket size_t
  | ReadAhead size_t
  | Broadcast cond
  | PollNotify nat
  | RemoveOpenFile
  | FreeFile

definition O_RDONLY :: int where "O_RDONLY = 0"
definition O_WRONLY :: int where "O_WRONLY = 1"
definition O_RDWR :: int where "O_RDWR = 2"
definition NOT_OPEN :: int where "NOT_OPEN = - 1"

text \<open>\<^verbatim>\<open>struct netpipe_req\<close> without the data pointer and the link (the queue is a list of
  addresses).\<close>

record netpipe_req =
  bytes_processed :: size_t
  size_req :: size_t
  error :: "errno option"

text \<open>Modelled from the spec: the circular buffer (\<^verbatim>\<open>cbuf.c\<close> is not among the sources),
  section 4.1: a bounded FIFO of bytes, \<open>put\<close> and \<open>get\<close> never block and move as many
  bytes as fit or are there.\<close>

record cbuf =
  csize :: size_t
  ccapacity :: size_t

definition cbuf_size :: "cbuf \<Rightarrow> size_t" where
  "cbuf_size b = csize b"

definition cbuf_capacity :: "cbuf \<Rightarrow> size_t" where
  "cbuf_capacity b = ccapacity b"

definition cbuf_empty :: "cbuf \<Rightarrow> bool" where
  "cbuf_empty b = (csize b = 0)"

definition cbuf_full :: "cbuf \<Rightarrow> bool" where
  "cbuf_full b = (csize b = ccapacity b)"

definition cbuf_get :: "cbuf \<Rightarrow> size_t \<Rightarrow> cbuf \<times> size_t" where
  "cbuf_get b n = (let k = min n (csize b) in (b\<lparr>csize := csize b - k\<rparr>, k))"

definition cbuf_put :: "cbuf \<Rightarrow> size_t \<Rightarrow> cbuf \<times> size_t" where
  "cbuf_put b n = (let k = min n (ccapacity b - csize b) in (b\<lparr>csize := csize b + k\<rparr>, k))"

record netpipe =
  open_mode :: int
  force_exit :: bool
  writers :: int
  readers :: int
  buffer :: cbuf
  remotemax :: size_t
  remotesize :: size_t
  poll_handles :: "nat list"
  wr_req :: "nat list"
  rd_req :: "nat list"
  heap :: "nat \<Rightarrow> netpipe_req"
  trace :: "event list"
  io :: "nat \<Rightarrow> io_result"
  ncalls :: nat
  errno_var :: "errno option"

definition available_remote :: "netpipe \<Rightarrow> size_t" where
  "available_remote f = remotemax f - remotesize f"

text \<open>Modelled from the spec: the socket helpers (\<^verbatim>\<open>send_*_message\<close>, \<^verbatim>\<open>readn\<close>,
  \<^verbatim>\<open>cbuf_readn\<close>) are not among the sources. A call transfers the whole count and returns
  it, or returns 0 when the connection is lost, or -1 on error (section 4.2).\<close>

definition io_value :: "io_result \<Rightarrow> size_t \<Rightarrow> int" where
  "io_value r n = (case r of IoOk \<Rightarrow> uint n | IoLost \<Rightarrow> 0 | IoErr e \<Rightarrow> - 1)"

definition socket_call :: "netpipe \<Rightarrow> event \<Rightarrow> size_t \<Rightarrow> int \<times> netpipe" where
  "socket_call f ev n =
     (let r = io f (ncalls f);
          f1 = f\<lparr>ncalls := Suc (ncalls f)\<rparr>
      in (io_value r n,
          case r of
            IoOk \<Rightarrow> f1\<lparr>trace := trace f1 @ [ev]\<rparr>
          | IoLost \<Rightarrow> f1
          | IoErr e \<Rightarrow> f1\<lparr>errno_var := Some e\<rparr>))"

text \<open>\<^verbatim>\<open>netpipe_add_request\<close>: the new request, at address \<open>p\<close>, is linked in front of
  the list of its mode.\<close>

definition netpipe_add_request :: "netpipe \<Rightarrow> nat \<Rightarrow> size_t \<Rightarrow> int \<Rightarrow> netpipe" where
  "netpipe_add_request f p sz mode =
     (let new_req = \<lparr>bytes_processed = 0, size_req = sz, error = None\<rparr>;
          f1 = f\<lparr>heap := (heap f)(p := new_req)\<rparr>
      in if mode = O_RDONLY then f1\<lparr>rd_req := p # rd_req f1\<rparr>
         else f1\<lparr>wr_req := p # wr_req f1\<rparr>)"


text \<open>A \<^verbatim>\<open>size_t\<close> or \<^verbatim>\<open>ssize_t\<close> stored in or returned as an \<^verbatim>\<open>int\<close> keeps its low 32 bits.\<close>

definition size_to_int :: "size_t \<Rightarrow> int" where
  "size_to_int n = sint (ucast n :: 32 word)"

definition to_int :: "int \<Rightarrow> int" where
  "to_int x = sint (word_of_int x :: 32 word)"

text \<open>\<^verbatim>\<open>do_send\<close>: returns the status, the pipe and \<^verbatim>\<open>*bytes_sent\<close>. The result of
  \<^verbatim>\<open>send_write_message\<close> is held in \<^verbatim>\<open>int bytes\<close>.\<close>

definition do_send :: "netpipe \<Rightarrow> size_t \<Rightarrow> int \<times> netpipe \<times> size_t" where
  "do_send f sz =
     (let bytes_sent = (if sz < available_remote f then sz else available_remote f)
      in if bytes_sent = 0 then (1, f, bytes_sent)
         else case socket_call f (SendWrite bytes_sent) bytes_sent of
           (r, f1) \<Rightarrow>
             let bytes = to_int r
             in if bytes \<le> 0 then (bytes, f1, bytes_sent)
                else (1, f1\<lparr>remotesize := remotesize f1 + word_of_int bytes\<rparr>,
                      word_of_int bytes))"

text \<open>\<^verbatim>\<open>do_flush\<close>. Modelled from the spec: \<^verbatim>\<open>send_flush_message\<close> is not among the sources;
  by section 4.6 (flush step) it drains the bytes it is asked to send from the local buffer.
  Its result is held in \<^verbatim>\<open>int bytes\<close>.\<close>

definition do_flush :: "netpipe \<Rightarrow> int \<times> netpipe \<times> size_t" where
  "do_flush f =
     (let available_locally = cbuf_size (buffer f);
          bytes_sent = (if available_locally < available_remote f then available_locally
                        else available_remote f)
      in if bytes_sent = 0 then (1, f, bytes_sent)
         else case socket_call f (SendFlush bytes_sent) bytes_sent of
           (r, f1) \<Rightarrow>
             let bytes = to_int r
             in if bytes \<le> 0 then (bytes, f1, bytes_sent)
                else (1, f1\<lparr>buffer := fst (cbuf_get (buffer f1) bytes_sent),
                            remotesize := remotesize f1 + word_of_int bytes\<rparr>,
                      word_of_int bytes))"

text \<open>\<^verbatim>\<open>do_buffered_read\<close>.\<close>

definition do_buffered_read :: "netpipe \<Rightarrow> size_t \<Rightarrow> int \<times> netpipe \<times> size_t" where
  "do_buffered_read f sz =
     (case cbuf_get (buffer f) sz of
        (b, bytes_read) \<Rightarrow>
          let f1 = f\<lparr>buffer := b\<rparr>
          in if bytes_read = 0 then (1, f1, bytes_read)
             else case socket_call f1 (SendRead bytes_read) bytes_read of
               (bytes, f2) \<Rightarrow>
                 if bytes \<le> 0 then (bytes, f2, bytes_read) else (1, f2, bytes_read))"

text \<open>\<^verbatim>\<open>loop_poll_notify\<close>.\<close>

definition loop_poll_notify :: "netpipe \<Rightarrow> netpipe" where
  "loop_poll_notify f =
     f\<lparr>trace := trace f @ map PollNotify (poll_handles f), poll_handles := []\<rparr>"

definition broadcast :: "cond \<Rightarrow> netpipe \<Rightarrow> netpipe" where
  "broadcast c f = f\<lparr>trace := trace f @ [Broadcast c]\<rparr>"

definition add_processed :: "netpipe \<Rightarrow> nat \<Rightarrow> size_t \<Rightarrow> netpipe" where
  "add_processed f p n =
     f\<lparr>heap := (heap f)(p := (heap f p)\<lparr>bytes_processed := bytes_processed (heap f p) + n\<rparr>)\<rparr>"

definition req_done :: "netpipe \<Rightarrow> nat \<Rightarrow> bool" where
  "req_done f p = (bytes_processed (heap f p) = size_req (heap f p))"

subsection \<open>\<^verbatim>\<open>netpipe_recv\<close>\<close>

text \<open>One iteration of the first loop of \<^verbatim>\<open>netpipe_recv\<close> on the request at \<open>p\<close>:
  \<open>Inl\<close> is the early return, \<open>Inr\<close> carries the pipe and whether the request was
  completed.\<close>

definition recv_buf_iter :: "netpipe \<Rightarrow> nat \<Rightarrow> (int \<times> netpipe) + (netpipe \<times> bool)" where
  "recv_buf_iter f p =
     (let remaining = size_req (heap f p) - bytes_processed (heap f p)
      in case do_buffered_read f remaining of
        (err, f1, dataread) \<Rightarrow>
          if err \<le> 0 then Inl (err, f1)
          else let f2 = add_processed f1 p dataread in Inr (f2, req_done f2 p))"

lemma recv_buf_iter_less:
  assumes "recv_buf_iter f p = Inr (f1, False)" and "\<not> cbuf_empty (buffer f)"
  shows "unat (csize (buffer f1)) < unat (csize (buffer f))"
proof -
  let ?rem = "size_req (heap f p) - bytes_processed (heap f p)"
  let ?k = "min ?rem (csize (buffer f))"
  obtain err g d where dbr: "do_buffered_read f ?rem = (err, g, d)"
    by (cases "do_buffered_read f ?rem") auto
  have d: "d = ?k" and b: "csize (buffer g) = csize (buffer f) - ?k"
    using dbr
    by (auto simp: do_buffered_read_def cbuf_get_def socket_call_def Let_def
             split: if_splits prod.splits io_result.splits)
  from assms(1) dbr have nd: "\<not> req_done (add_processed g p d) p"
    and h: "buffer f1 = buffer g"
    by (auto simp: recv_buf_iter_def Let_def add_processed_def split: if_splits)
  have hg: "heap g = heap f"
    using dbr
    by (auto simp: do_buffered_read_def cbuf_get_def socket_call_def Let_def
             split: if_splits prod.splits io_result.splits)
  have "?k \<noteq> 0"
  proof
    assume "?k = 0"
    with assms(2) have "?rem = 0"
      by (auto simp: cbuf_empty_def min_def split: if_splits)
    with nd d \<open>?k = 0\<close> hg show False
      by (simp add: req_done_def add_processed_def)
  qed
  moreover have "?k \<le> csize (buffer f)" by simp
  ultimately have "unat (csize (buffer f) - ?k) < unat (csize (buffer f))"
    by (metis unat_sub word_greater_zero_iff unat_gt_0 diff_less unat_eq_zero
              word_le_nat_alt le_zero_eq not_gr_zero)
  with b h show ?thesis by simp
qed

function recv_loop1 ::
  "netpipe \<Rightarrow> nat list \<Rightarrow> bool \<Rightarrow> (int \<times> netpipe) + (netpipe \<times> nat list \<times> bool)" where
  "recv_loop1 f [] wakeup = Inr (f, [], wakeup)"
| "recv_loop1 f (p # ps) wakeup =
     (if cbuf_empty (buffer f) then Inr (f, p # ps, wakeup)
      else case recv_buf_iter f p of
        Inl e \<Rightarrow> Inl e
      | Inr (f1, True) \<Rightarrow> recv_loop1 f1 ps True
      | Inr (f1, False) \<Rightarrow> recv_loop1 f1 (p # ps) wakeup)"
  by pat_completeness auto
termination
  by (relation "measures [\<lambda>(f, req, w). length req, \<lambda>(f, req, w). unat (csize (buffer f))]")
     (auto dest: recv_buf_iter_less)


text \<open>One iteration of the second loop of \<^verbatim>\<open>netpipe_recv\<close>. \<^verbatim>\<open>dataread\<close> is a
  \<^verbatim>\<open>size_t\<close>, so the test \<^verbatim>\<open>dataread <= 0\<close> only catches 0.\<close>

definition recv_sock_iter ::
  "netpipe \<Rightarrow> nat \<Rightarrow> size_t \<Rightarrow> (int \<times> netpipe) + (netpipe \<times> bool \<times> size_t)" where
  "recv_sock_iter f p remaining =
     (let left = size_req (heap f p) - bytes_processed (heap f p);
          toberead = (if left < remaining then left else remaining)
      in case socket_call f (ReadSocket toberead) toberead of
        (r, f1) \<Rightarrow>
          let dataread = (word_of_int r :: size_t)
          in if dataread = 0 then Inl (uint dataread, f1)
             else case socket_call f1 (SendRead dataread) dataread of
               (err, f2) \<Rightarrow>
                 if err \<le> 0 then Inl (err, f2)
                 else let f3 = add_processed f2 p dataread
                      in Inr (f3, req_done f3 p, remaining - dataread))"

partial_function (option) recv_loop2 ::
  "netpipe \<Rightarrow> nat list \<Rightarrow> size_t \<Rightarrow> bool \<Rightarrow>
   ((int \<times> netpipe) + (netpipe \<times> nat list \<times> size_t \<times> bool)) option" where
  "recv_loop2 f req remaining wakeup =
     (case req of
        [] \<Rightarrow> Some (Inr (f, req, remaining, wakeup))
      | p # ps \<Rightarrow>
          if \<not> cbuf_empty (buffer f) \<or> remaining = 0
          then Some (Inr (f, req, remaining, wakeup))
          else case recv_sock_iter f p remaining of
            Inl e \<Rightarrow> Some (Inl e)
          | Inr (f1, done, remaining1) \<Rightarrow>
              if done then recv_loop2 f1 ps remaining1 True
              else recv_loop2 f1 req remaining1 wakeup)"

text \<open>Modelled from the spec: \<^verbatim>\<open>cbuf_readn\<close> (section 4.1, \<open>read_from\<close>) reads from the
  socket into the free space of the buffer.\<close>

definition cbuf_readn :: "netpipe \<Rightarrow> size_t \<Rightarrow> int \<times> netpipe" where
  "cbuf_readn f n =
     (let f1 = f\<lparr>ncalls := Suc (ncalls f)\<rparr>
      in case io f (ncalls f) of
        IoOk \<Rightarrow>
          (let (b, k) = cbuf_put (buffer f1) n
           in (uint k, f1\<lparr>buffer := b, trace := trace f1 @ [ReadAhead k]\<rparr>))
      | IoLost \<Rightarrow> (0, f1)
      | IoErr e \<Rightarrow> (- 1, f1\<lparr>errno_var := Some e\<rparr>))"

text \<open>The rest of \<^verbatim>\<open>netpipe_recv\<close>, from the readahead on.\<close>

definition recv_finish :: "netpipe \<Rightarrow> size_t \<Rightarrow> bool \<Rightarrow> int \<times> netpipe" where
  "recv_finish f sz wakeup =
     (let f1 = (if wakeup then broadcast Rd f else f)
      in (size_to_int sz, loop_poll_notify f1))"

definition recv_readahead :: "netpipe \<Rightarrow> size_t \<Rightarrow> size_t \<Rightarrow> bool \<Rightarrow> int \<times> netpipe" where
  "recv_readahead f sz remaining wakeup =
     (if remaining > 0
      then case cbuf_readn f remaining of
        (r, f1) \<Rightarrow>
          let dataread = (word_of_int r :: size_t)
          in if dataread = 0 then (uint dataread, f1) else recv_finish f1 sz wakeup
      else recv_finish f sz wakeup)"

text \<open>\<^verbatim>\<open>netpipe_recv\<close>. The local \<^verbatim>\<open>wakeup\<close> is declared without an initial value, so
  what it holds before the first assignment is the parameter \<open>wakeup0\<close>. \<open>None\<close>: the second
  loop does not end.\<close>

definition netpipe_recv :: "netpipe \<Rightarrow> size_t \<Rightarrow> bool \<Rightarrow> (int \<times> netpipe) option" where
  "netpipe_recv f sz wakeup0 =
     (case recv_loop1 f (rd_req f) wakeup0 of
        Inl e \<Rightarrow> Some e
      | Inr (f1, req1, wakeup1) \<Rightarrow>
          let f2 = f1\<lparr>rd_req := req1\<rparr>
          in (case recv_loop2 f2 (rd_req f2) sz wakeup1 of
                None \<Rightarrow> None
              | Some (Inl e) \<Rightarrow> Some e
              | Some (Inr (f3, req3, remaining, wakeup3)) \<Rightarrow>
                  Some (recv_readahead (f3\<lparr>rd_req := req3\<rparr>) sz remaining wakeup3)))"


subsection \<open>\<^verbatim>\<open>send_data\<close>\<close>

definition set_error :: "netpipe \<Rightarrow> nat \<Rightarrow> errno option \<Rightarrow> netpipe" where
  "set_error f p e = f\<lparr>heap := (heap f)(p := (heap f p)\<lparr>error := e\<rparr>)\<rparr>"

text \<open>One iteration of the first loop of \<^verbatim>\<open>send_data\<close>; \<open>Inl\<close> is the failed send, after
  the error is stored in the request and \<^verbatim>\<open>wr\<close> is broadcast.\<close>

definition send_req_iter :: "netpipe \<Rightarrow> nat \<Rightarrow> netpipe + (netpipe \<times> bool \<times> size_t)" where
  "send_req_iter f p =
     (let remaining = size_req (heap f p) - bytes_processed (heap f p)
      in case do_send f remaining of
        (err, f1, bytes) \<Rightarrow>
          if err \<le> 0
          then Inl (broadcast Wr
                 (set_error f1 p (if err = 0 then Some ECONNRESET else errno_var f1)))
          else let f2 = add_processed f1 p bytes in Inr (f2, req_done f2 p, bytes))"

lemma socket_call_simps [simp]:
  "buffer (snd (socket_call f ev n)) = buffer f"
  "heap (snd (socket_call f ev n)) = heap f"
  "remotemax (snd (socket_call f ev n)) = remotemax f"
  "remotesize (snd (socket_call f ev n)) = remotesize f"
  "rd_req (snd (socket_call f ev n)) = rd_req f"
  "wr_req (snd (socket_call f ev n)) = wr_req f"
  "readers (snd (socket_call f ev n)) = readers f"
  "writers (snd (socket_call f ev n)) = writers f"
  "force_exit (snd (socket_call f ev n)) = force_exit f"
  "open_mode (snd (socket_call f ev n)) = open_mode f"
  "poll_handles (snd (socket_call f ev n)) = poll_handles f"
  by (simp_all add: socket_call_def Let_def split: io_result.splits)

lemma to_int_count:
  fixes n :: size_t
  assumes "0 < to_int (uint n)"
  shows "(word_of_int (to_int (uint n)) :: size_t) \<noteq> 0 \<and> (word_of_int (to_int (uint n)) :: size_t) \<le> n"
proof -
  let ?w = "word_of_int (uint n) :: 32 word"
  have b: "to_int (uint n) = sint ?w" by (simp only: to_int_def)
  with assms have pos: "0 < sint ?w" by (simp only:)
  have "sint ?w < 2 ^ (LENGTH(32) - 1)" by (rule sint_lt)
  then have "sint ?w < 2 ^ 32" by simp
  with pos have "take_bit 32 (sint ?w) = sint ?w" by (simp only: take_bit_int_eq_self less_imp_le)
  moreover have "uint ?w = take_bit LENGTH(32) (sint ?w)" by (rule uint_sint)
  ultimately have su: "sint ?w = uint ?w" by simp
  have "uint ?w = uint n mod 2 ^ LENGTH(32)" by (rule uint_word_of_int)
  moreover have "0 \<le> uint n" by simp
  ultimately have le: "uint ?w \<le> uint n" by (simp only: zmod_le_nonneg_dividend)
  have "uint n < 2 ^ LENGTH(64)" by (rule uint_lt2p)
  with le su have lt: "sint ?w < 2 ^ LENGTH(64)" by linarith
  let ?k = "word_of_int (sint ?w) :: size_t"
  have "uint ?k = sint ?w mod 2 ^ LENGTH(64)" by (rule uint_word_of_int)
  also have "\<dots> = sint ?w" using pos lt by (simp only: mod_pos_pos_trivial less_imp_le)
  finally have uk: "uint ?k = sint ?w" .
  have nz: "?k \<noteq> 0"
  proof
    assume "?k = 0"
    then have "uint ?k = 0" by (simp only: uint_0_eq)
    with uk pos show False by linarith
  qed
  have "uint ?k \<le> uint n" using uk su le by linarith
  then have "?k \<le> n" by (simp only: word_le_def)
  with nz show ?thesis unfolding b by blast
qed

lemma socket_call_count:
  assumes "socket_call f ev n = (r, g)" and "0 < to_int r"
  shows "(word_of_int (to_int r) :: size_t) \<noteq> 0 \<and> (word_of_int (to_int r) :: size_t) \<le> n"
proof (cases "io f (ncalls f)")
  case IoOk
  with assms(1) have "r = uint n" by (auto simp: socket_call_def io_value_def Let_def)
  with assms(2) to_int_count [of n] show ?thesis by blast
next
  case IoLost
  with assms(1) have "r = 0" by (auto simp: socket_call_def io_value_def Let_def)
  with assms(2) show ?thesis by (simp add: to_int_def)
next
  case (IoErr e)
  with assms(1) have "r = - 1" by (auto simp: socket_call_def io_value_def Let_def)
  with assms(2) show ?thesis by (simp add: to_int_def)
qed

lemma do_send_cases:
  assumes "do_send f sz = (err, f1, bytes)" and "0 < err"
  shows "heap f1 = heap f \<and> wr_req f1 = wr_req f \<and> rd_req f1 = rd_req f
       \<and> buffer f1 = buffer f \<and> remotemax f1 = remotemax f
       \<and> bytes \<le> (if sz < available_remote f then sz else available_remote f)
       \<and> ((if sz < available_remote f then sz else available_remote f) \<noteq> 0 \<longrightarrow> bytes \<noteq> 0)
       \<and> remotesize f1 = remotesize f + bytes"
proof (cases "(if sz < available_remote f then sz else available_remote f) = 0")
  case True
  with assms show ?thesis by (auto simp: do_send_def Let_def)
next
  case False
  let ?n = "if sz < available_remote f then sz else available_remote f"
  obtain r g where sc: "socket_call f (SendWrite ?n) ?n = (r, g)"
    by (cases "socket_call f (SendWrite ?n) ?n") auto
  with assms False have r: "0 < to_int r"
    and f1: "f1 = g\<lparr>remotesize := remotesize g + word_of_int (to_int r)\<rparr>"
    and b: "bytes = word_of_int (to_int r)"
    by (auto simp: do_send_def Let_def split: if_splits)
  note k = socket_call_count [OF sc r]
  have g: "g = snd (socket_call f (SendWrite ?n) ?n)" using sc by simp
  have "heap f1 = heap f \<and> wr_req f1 = wr_req f \<and> rd_req f1 = rd_req f
       \<and> buffer f1 = buffer f \<and> remotemax f1 = remotemax f
       \<and> remotesize f1 = remotesize f + bytes"
    unfolding f1 b g by simp
  with k b show ?thesis by simp
qed

lemma send_req_iter_less:
  assumes "send_req_iter f p = Inr (f1, False, bytes)" and "available_remote f > 0"
  shows "unat (available_remote f1) < unat (available_remote f)"
proof -
  let ?rem = "size_req (heap f p) - bytes_processed (heap f p)"
  obtain err g d where ds: "do_send f ?rem = (err, g, d)"
    by (cases "do_send f ?rem") auto
  with assms(1) have pos: "0 < err" and f1: "f1 = add_processed g p d"
    and nd: "\<not> req_done (add_processed g p d) p"
    by (auto simp: send_req_iter_def Let_def split: if_splits)
  note c = do_send_cases [OF ds pos]
  have "d \<noteq> 0"
  proof
    assume "d = 0"
    with c assms(2) have "?rem = 0" by (auto split: if_splits)
    with nd c \<open>d = 0\<close> show False by (simp add: req_done_def add_processed_def)
  qed
  moreover have "d \<le> available_remote f" using c by (auto split: if_splits)
  moreover have "available_remote f1 = available_remote f - d"
    using c f1 by (simp add: available_remote_def add_processed_def)
  ultimately show ?thesis
    by (metis unat_sub unat_gt_0 diff_less unat_eq_zero word_le_nat_alt le_zero_eq not_gr_zero)
qed

function send_loop1 ::
  "netpipe \<Rightarrow> nat list \<Rightarrow> size_t \<Rightarrow> (size_t \<times> netpipe) + (netpipe \<times> nat list \<times> size_t)" where
  "send_loop1 f [] datasent = Inr (f, [], datasent)"
| "send_loop1 f (p # ps) datasent =
     (if \<not> available_remote f > 0 then Inr (f, p # ps, datasent)
      else case send_req_iter f p of
        Inl f1 \<Rightarrow> Inl (0, f1\<lparr>wr_req := ps\<rparr>)
      | Inr (f1, True, bytes) \<Rightarrow> send_loop1 f1 ps (datasent + bytes)
      | Inr (f1, False, bytes) \<Rightarrow> send_loop1 f1 (p # ps) (datasent + bytes))"
  by pat_completeness auto
termination
  by (relation "measures [\<lambda>(f, req, d). length req, \<lambda>(f, req, d). unat (available_remote f)]")
     (auto dest: send_req_iter_less)

text \<open>One iteration of the writeahead loop of \<^verbatim>\<open>send_data\<close>.\<close>

definition writeahead_iter :: "netpipe \<Rightarrow> nat \<Rightarrow> netpipe \<times> bool \<times> size_t" where
  "writeahead_iter f p =
     (let remaining = size_req (heap f p) - bytes_processed (heap f p);
          (b, bytes) = cbuf_put (buffer f) remaining;
          f1 = add_processed (f\<lparr>buffer := b\<rparr>) p bytes
      in (f1, req_done f1 p, bytes))"

lemma writeahead_iter_full:
  assumes "writeahead_iter f p = (f1, False, bytes)"
  shows "cbuf_full (buffer f1)"
proof -
  let ?rem = "size_req (heap f p) - bytes_processed (heap f p)"
  let ?free = "ccapacity (buffer f) - csize (buffer f)"
  from assms have nd: "bytes_processed (heap f p) + min ?rem ?free \<noteq> size_req (heap f p)"
    and b: "buffer f1 = (buffer f)\<lparr>csize := csize (buffer f) + min ?rem ?free\<rparr>"
    by (auto simp: writeahead_iter_def cbuf_put_def Let_def req_done_def add_processed_def)
  from nd have "min ?rem ?free \<noteq> ?rem" by auto
  then have "min ?rem ?free = ?free" by (auto simp: min_def)
  with b show ?thesis by (simp add: cbuf_full_def)
qed

function send_loop2 :: "netpipe \<Rightarrow> nat list \<Rightarrow> size_t \<Rightarrow> netpipe \<times> nat list \<times> size_t" where
  "send_loop2 f [] datasent = (f, [], datasent)"
| "send_loop2 f (p # ps) datasent =
     (if cbuf_full (buffer f) then (f, p # ps, datasent)
      else case writeahead_iter f p of
        (f1, True, bytes) \<Rightarrow> send_loop2 f1 ps (datasent + bytes)
      | (f1, False, bytes) \<Rightarrow> send_loop2 f1 (p # ps) (datasent + bytes))"
  by pat_completeness auto
termination
  by (relation "measures [\<lambda>(f, req, d). length req,
                          \<lambda>(f, req, d). if cbuf_full (buffer f) then 0 else 1]")
     (auto dest: writeahead_iter_full [OF sym])

text \<open>\<^verbatim>\<open>send_data\<close>; the result is a \<^verbatim>\<open>size_t\<close>, so \<^verbatim>\<open>return -1\<close> is the largest word.\<close>

definition send_data :: "netpipe \<Rightarrow> size_t \<times> netpipe" where
  "send_data f =
     (case do_flush f of
        (err, f1, bytes) \<Rightarrow>
          if err \<le> 0 then (- 1, f1)
          else let datasent = (if bytes > 0 then bytes else 0)
               in (case send_loop1 f1 (wr_req f1) datasent of
                     Inl r \<Rightarrow> r
                   | Inr (f2, req2, datasent2) \<Rightarrow>
                       (case send_loop2 (f2\<lparr>wr_req := req2\<rparr>) req2 datasent2 of
                          (f4, req4, datasent4) \<Rightarrow>
                            let f5 = f4\<lparr>wr_req := req4\<rparr>
                            in (datasent4,
                                if datasent4 > 0 then loop_poll_notify f5 else f5))))"

text \<open>\<^verbatim>\<open>netpipe_alloc\<close>: the fresh pipe, with the local and the remote capacity.\<close>

definition netpipe_alloc :: "size_t \<Rightarrow> size_t \<Rightarrow> (nat \<Rightarrow> io_result) \<Rightarrow> netpipe" where
  "netpipe_alloc pipecapacity remotepipecapacity sock =
     \<lparr>open_mode = NOT_OPEN, force_exit = False, writers = 0, readers = 0,
      buffer = \<lparr>csize = 0, ccapacity = pipecapacity\<rparr>,
      remotemax = remotepipecapacity, remotesize = 0, poll_handles = [],
      wr_req = [], rd_req = [],
      heap = (\<lambda>p. \<lparr>bytes_processed = 0, size_req = 0, error = None\<rparr>),
      trace = [], io = sock, ncalls = 0, errno_var = None\<rparr>"

subsection \<open>\<^verbatim>\<open>netpipe_send\<close>\<close>

text \<open>A call that may block is modelled in two parts. The first runs up to the wait loop and
  ends either with the value the call returns or blocked, with the request (at the address
  \<open>p\<close> that \<^verbatim>\<open>malloc\<close> gave) enqueued. The second is run on the pipe as the caller finds it
  when it is woken: \<open>None\<close> while the loop condition still holds, otherwise the value
  returned. A \<^verbatim>\<open>size_t\<close> returned as \<^verbatim>\<open>ssize_t\<close> is read with \<open>sint\<close>.

  The pipe's mutex is not a field of the model: every path of the calls modelled in this way
  releases it before returning, except one path of \<^verbatim>\<open>netpipe_flush\<close>. \<open>ReturnsLocked\<close> is a
  return on that path, with the mutex still held by the caller. \<open>Hangs\<close> is a caller that
  locks the mutex again while holding it: \<^verbatim>\<open>netpipe_alloc\<close> initialises the mutex with the
  default attributes, so the second \<^verbatim>\<open>pthread_mutex_lock\<close> does not come back.\<close>

datatype blocking =
    Returns int netpipe
  | Waits netpipe size_t size_t
  | ReturnsLocked int netpipe
  | Hangs netpipe

definition still_waiting :: "netpipe \<Rightarrow> nat \<Rightarrow> size_t \<Rightarrow> bool" where
  "still_waiting f p remaining \<longleftrightarrow>
     \<not> force_exit f \<and> bytes_processed (heap f p) \<noteq> remaining \<and> error (heap f p) = None"

definition netpipe_send_begin :: "netpipe \<Rightarrow> nat \<Rightarrow> size_t \<Rightarrow> bool \<Rightarrow> blocking" where
  "netpipe_send_begin f p sz nonblock =
     (if force_exit f \<or> readers f = 0 then Returns (- 1) (f\<lparr>errno_var := Some EPIPE\<rparr>)
      else case do_flush f of
        (err, f1, bytes) \<Rightarrow>
          if err \<le> 0 then Returns (- 1) f1
          else let f2 = (if bytes > 0 then broadcast Wr f1 else f1)
               in (case (if available_remote f2 > 0 \<and> cbuf_empty (buffer f2)
                         then do_send f2 sz else (1, f2, 0)) of
                     (err2, f3, sent) \<Rightarrow>
                       if err2 \<le> 0 then Returns (- 1) f3
                       else if sent = sz then Returns (sint sent) f3
                       else (case cbuf_put (buffer f3) sz of
                               (b, bytes3) \<Rightarrow>
                                 let f4 = f3\<lparr>buffer := b\<rparr>;
                                     sent2 = sent + bytes3
                                 in if sent2 = sz \<or> nonblock
                                    then Returns (sint sent2)
                                           (if sent2 = 0 then f4\<lparr>errno_var := Some EAGAIN\<rparr>
                                            else f4)
                                    else Waits (netpipe_add_request f4 p (sz - sent2) O_WRONLY)
                                           sent2 (sz - sent2))))"

definition netpipe_send_wake :: "netpipe \<Rightarrow> nat \<Rightarrow> size_t \<Rightarrow> size_t \<Rightarrow> (int \<times> netpipe) option" where
  "netpipe_send_wake f p sent remaining =
     (if still_waiting f p remaining then None
      else if bytes_processed (heap f p) = 0 \<and> (force_exit f \<or> error (heap f p) \<noteq> None)
           then Some (sint (- 1 :: size_t),
                      f\<lparr>errno_var := (case error (heap f p) of
                                         Some e \<Rightarrow> Some e | None \<Rightarrow> Some EPIPE)\<rparr>)
           else Some (sint (sent + bytes_processed (heap f p)), f))"

subsection \<open>\<^verbatim>\<open>netpipe_read\<close>\<close>

text \<open>\<^verbatim>\<open>send_read_request_message\<close> and the other control messages carry no payload count
  that the caller uses; the model asks the socket for one unit.\<close>

definition netpipe_read_begin :: "netpipe \<Rightarrow> nat \<Rightarrow> size_t \<Rightarrow> bool \<Rightarrow> blocking" where
  "netpipe_read_begin f p sz nonblock =
     (if force_exit f then Returns (- 1) (f\<lparr>errno_var := Some EPIPE\<rparr>)
      else case do_buffered_read f sz of
        (err, f1, rd) \<Rightarrow>
          if err \<le> 0 then Returns err f1
          else if rd = sz \<or> nonblock
               then Returns (sint rd) (if rd = 0 then f1\<lparr>errno_var := Some EAGAIN\<rparr> else f1)
          else if writers f1 = 0 then Returns 0 f1
          else let remaining = sz - rd;
                   f2 = netpipe_add_request f1 p remaining O_RDONLY
               in (case socket_call f2 (SendReadRequest remaining) 1 of
                     (err2, f3) \<Rightarrow>
                       if err2 \<le> 0 then Returns err2 f3 else Waits f3 rd remaining))"

text \<open>After the wait loop of \<^verbatim>\<open>netpipe_read\<close>. The assignment \<^verbatim>\<open>read = -1\<close> is not part of the
  \<^verbatim>\<open>else if\<close>: it follows the whole conditional and always runs.\<close>

definition netpipe_read_wake :: "netpipe \<Rightarrow> nat \<Rightarrow> size_t \<Rightarrow> size_t \<Rightarrow> (int \<times> netpipe) option" where
  "netpipe_read_wake f p rd remaining =
     (if still_waiting f p remaining then None
      else if bytes_processed (heap f p) = 0 \<and> (force_exit f \<or> error (heap f p) \<noteq> None)
           then let rd1 = (if error (heap f p) = Some EPIPE then 0 else rd);
                    f1 = (if error (heap f p) = Some EPIPE then f
                          else case error (heap f p) of
                            Some e \<Rightarrow> f\<lparr>errno_var := Some e\<rparr> | None \<Rightarrow> f);
                    rd2 = (- 1 :: size_t)
                in Some (sint rd2, f1)
           else Some (sint (rd + bytes_processed (heap f p)), f))"

subsection \<open>\<^verbatim>\<open>netpipe_close_update\<close>\<close>

definition set_error_all :: "netpipe \<Rightarrow> nat list \<Rightarrow> errno \<Rightarrow> netpipe" where
  "set_error_all f req e = fold (\<lambda>p g. set_error g p (Some e)) req f"

definition free_if_unused :: "netpipe \<Rightarrow> netpipe" where
  "free_if_unused f =
     (if writers f = 0 \<and> readers f = 0
      then f\<lparr>trace := trace f @ [RemoveOpenFile, FreeFile]\<rparr> else f)"

definition netpipe_close_update :: "netpipe \<Rightarrow> int \<Rightarrow> int \<times> netpipe" where
  "netpipe_close_update f mode =
     (let f1 =
        (if mode = O_WRONLY
         then let g = f\<lparr>writers := writers f - 1\<rparr>
              in if writers g = 0
                 then broadcast Rd ((set_error_all g (rd_req g) EPIPE)\<lparr>rd_req := []\<rparr>)
                 else g
         else if mode = O_RDONLY
         then let g = f\<lparr>readers := readers f - 1\<rparr>
              in if readers g = 0
                 then broadcast Wr ((set_error_all g (wr_req g) EPIPE)\<lparr>wr_req := []\<rparr>)
                 else g
         else f)
      in (0, free_if_unused (loop_poll_notify f1)))"

definition netpipe_force_exit :: "netpipe \<Rightarrow> int \<times> netpipe" where
  "netpipe_force_exit f =
     (0, broadcast Wr (broadcast Rd (broadcast CanOpen (f\<lparr>force_exit := True\<rparr>))))"

subsection \<open>\<^verbatim>\<open>netpipe_open\<close> and \<^verbatim>\<open>netpipe_open_update\<close>\<close>

text \<open>The pipe \<open>f\<close> is the one \<^verbatim>\<open>netpipefs_get_or_create_open_file\<close> returned and
  \<open>just_created\<close> its flag. \<open>OpenFails\<close> is the \<^verbatim>\<open>NULL\<close> result, \<open>Opens\<close> the pipe returned,
  \<open>OpenWaits\<close> the caller blocked on \<^verbatim>\<open>canopen\<close>. The result does not say whether the mutex
  was released (the failing paths of \<^verbatim>\<open>netpipe_open\<close> release it only for a pipe that was just
  created).\<close>

datatype open_result = OpenFails netpipe | Opens netpipe | OpenWaits netpipe

definition count_open :: "netpipe \<Rightarrow> int \<Rightarrow> netpipe" where
  "count_open f mode =
     (if mode = O_RDONLY then f\<lparr>readers := readers f + 1\<rparr>
      else if mode = O_WRONLY then f\<lparr>writers := writers f + 1\<rparr>
      else f)"

definition undo_open :: "netpipe \<Rightarrow> int \<Rightarrow> netpipe" where
  "undo_open f mode =
     (if mode = O_RDONLY
      then let g = f\<lparr>readers := readers f - 1\<rparr>
           in if readers g = 0 then g\<lparr>open_mode := NOT_OPEN\<rparr> else g
      else if mode = O_WRONLY
      then let g = f\<lparr>writers := writers f - 1\<rparr>
           in if writers g = 0 then g\<lparr>open_mode := NOT_OPEN\<rparr> else g
      else f)"

definition open_error :: "netpipe \<Rightarrow> bool \<Rightarrow> netpipe" where
  "open_error f just_created =
     (if just_created then f\<lparr>trace := trace f @ [RemoveOpenFile, FreeFile]\<rparr> else f)"

definition open_waiting :: "netpipe \<Rightarrow> bool" where
  "open_waiting f \<longleftrightarrow> \<not> force_exit f \<and> (readers f = 0 \<or> writers f = 0)"

definition netpipe_open_wake :: "netpipe \<Rightarrow> int \<Rightarrow> bool \<Rightarrow> open_result option" where
  "netpipe_open_wake f mode just_created =
     (if open_waiting f then None
      else if force_exit f
           then Some (OpenFails (open_error (undo_open (f\<lparr>errno_var := Some ENOENT\<rparr>) mode)
                                   just_created))
           else Some (Opens f))"

definition netpipe_open_begin :: "netpipe \<Rightarrow> int \<Rightarrow> bool \<Rightarrow> bool \<Rightarrow> open_result" where
  "netpipe_open_begin f mode nonblock just_created =
     (if mode = O_RDWR then OpenFails (f\<lparr>errno_var := Some EPERM\<rparr>)
      else if force_exit f then OpenFails (open_error (f\<lparr>errno_var := Some ENOENT\<rparr>) just_created)
      else if open_mode f \<noteq> - 1 \<and> open_mode f \<noteq> mode
           then OpenFails (open_error (f\<lparr>errno_var := Some EPERM\<rparr>) just_created)
      else let f1 = count_open f mode
           in if nonblock \<and> (readers f1 = 0 \<or> writers f1 = 0)
              then OpenFails (open_error (undo_open (f1\<lparr>errno_var := Some EAGAIN\<rparr>) mode)
                                just_created)
              else (case socket_call (broadcast CanOpen f1) (SendOpen mode) 1 of
                      (bytes, f3) \<Rightarrow>
                        if bytes \<le> 0 then OpenFails (open_error (undo_open f3 mode) just_created)
                        else let f4 = f3\<lparr>open_mode := mode\<rparr>
                             in (case netpipe_open_wake f4 mode just_created of
                                   None \<Rightarrow> OpenWaits f4
                                 | Some r \<Rightarrow> r)))"

definition netpipe_open_update :: "netpipe \<Rightarrow> int \<Rightarrow> bool \<Rightarrow> open_result" where
  "netpipe_open_update f mode just_created =
     (if mode = O_RDWR then OpenFails (f\<lparr>errno_var := Some EPERM\<rparr>)
      else Opens (broadcast CanOpen (count_open f mode)))"

subsection \<open>\<^verbatim>\<open>netpipe_flush\<close>\<close>

text \<open>\<^verbatim>\<open>datasent\<close> is a \<^verbatim>\<open>ssize_t\<close>; it is kept as the word it is converted from and read with
  \<open>sint\<close> where the code tests or returns it. When \<^verbatim>\<open>do_flush\<close> fails the code is
  \<^verbatim>\<open>if (err <= 0) return -1;\<close>, without the \<^verbatim>\<open>netpipe_unlock\<close> that the other early returns
  have.\<close>

definition netpipe_flush_begin :: "netpipe \<Rightarrow> nat \<Rightarrow> bool \<Rightarrow> blocking" where
  "netpipe_flush_begin f p nonblock =
     (if force_exit f \<or> readers f = 0 then Returns (- 1) (f\<lparr>errno_var := Some EPIPE\<rparr>)
      else case do_flush f of
        (err, f1, bytes) \<Rightarrow>
          if err \<le> 0 then ReturnsLocked (- 1) f1
          else let datasent = bytes;
                   f2 = broadcast Wr f1;
                   remaining = cbuf_size (buffer f2)
               in if remaining = 0 \<or> nonblock
                  then Returns (if sint datasent \<noteq> 0 then sint datasent else - 1) f2
                  else Waits (netpipe_add_request f2 p remaining O_WRONLY) datasent remaining)"


subsection \<open>\<^verbatim>\<open>netpipe_close\<close>\<close>





subsection \<open>\<^verbatim>\<open>netpipe_read_request\<close> and \<^verbatim>\<open>netpipe_read_update\<close>\<close>

text \<open>What follows \<^verbatim>\<open>err = send_data(file)\<close> in both: the \<^verbatim>\<open>size_t\<close> is stored in an \<^verbatim>\<open>int\<close>;
  when it is positive \<^verbatim>\<open>wr\<close> is broadcast, and the macro \<^verbatim>\<open>PTH\<close> stores the result of the
  broadcast, 0, in \<^verbatim>\<open>err\<close>, which is then returned.\<close>

definition after_send_data :: "size_t \<times> netpipe \<Rightarrow> int \<times> netpipe" where
  "after_send_data r =
     (case r of (n, f) \<Rightarrow>
        let err = size_to_int n in if err > 0 then (0, broadcast Wr f) else (err, f))"

definition netpipe_read_request :: "netpipe \<Rightarrow> size_t \<Rightarrow> int \<times> netpipe" where
  "netpipe_read_request f sz = after_send_data (send_data (f\<lparr>remotemax := remotemax f + sz\<rparr>))"

definition netpipe_read_update :: "netpipe \<Rightarrow> size_t \<Rightarrow> int \<times> netpipe" where
  "netpipe_read_update f sz =
     after_send_data
       (send_data (f\<lparr>remotemax := remotemax f - sz, remotesize := remotesize f - sz\<rparr>))"

subsection \<open>Observations and example pipes\<close>

definition returned :: "blocking \<Rightarrow> (int \<times> errno option) option" where
  "returned b =
     (case b of Returns r g \<Rightarrow> Some (r, errno_var g) | Waits g s n \<Rightarrow> None
      | ReturnsLocked r g \<Rightarrow> Some (r, errno_var g) | Hangs g \<Rightarrow> None)"

definition waiting :: "blocking \<Rightarrow> (size_t \<times> size_t) option" where
  "waiting b =
     (case b of Returns r g \<Rightarrow> None | Waits g s n \<Rightarrow> Some (s, n)
      | ReturnsLocked r g \<Rightarrow> None | Hangs g \<Rightarrow> None)"

definition pipe_of :: "blocking \<Rightarrow> netpipe" where
  "pipe_of b =
     (case b of Returns r g \<Rightarrow> g | Waits g s n \<Rightarrow> g
      | ReturnsLocked r g \<Rightarrow> g | Hangs g \<Rightarrow> g)"

definition result_of :: "(int \<times> netpipe) option \<Rightarrow> (int \<times> errno option) option" where
  "result_of x = (case x of None \<Rightarrow> None | Some (r, g) \<Rightarrow> Some (r, errno_var g))"

text \<open>A pipe open for reading (writing) whose peer has opened the other side.\<close>

definition reader_pipe :: netpipe where
  "reader_pipe = (netpipe_alloc 16 16 (\<lambda>k. IoOk))\<lparr>open_mode := O_RDONLY, readers := 1, writers := 1\<rparr>"

definition writer_pipe :: netpipe where
  "writer_pipe = (netpipe_alloc 16 16 (\<lambda>k. IoOk))\<lparr>open_mode := O_WRONLY, readers := 1, writers := 1\<rparr>"

lemmas eval_defs =
  netpipe_alloc_def netpipe_add_request_def O_RDONLY_def O_WRONLY_def O_RDWR_def NOT_OPEN_def
  Let_def cbuf_empty_def cbuf_full_def cbuf_get_def cbuf_put_def cbuf_size_def
  socket_call_def io_value_def add_processed_def req_done_def set_error_def
  loop_poll_notify_def broadcast_def available_remote_def do_send_def do_flush_def
  to_int_def size_to_int_def
  do_buffered_read_def still_waiting_def returned_def waiting_def pipe_of_def result_of_def

definition fresh_pipe :: netpipe where
  "fresh_pipe = netpipe_alloc 16 16 (\<lambda>k. IoOk)"

section \<open>Which pending request is served\<close>

text \<open>What the socket and the helpers leave untouched.\<close>

lemma socket_call_frame:
  "socket_call f ev n = (r, g) \<Longrightarrow>
     heap g = heap f \<and> buffer g = buffer f \<and> rd_req g = rd_req f \<and> wr_req g = wr_req f
   \<and> remotemax g = remotemax f \<and> remotesize g = remotesize f \<and> readers g = readers f
   \<and> writers g = writers f \<and> force_exit g = force_exit f \<and> open_mode g = open_mode f
   \<and> poll_handles g = poll_handles f"
  by (auto simp: socket_call_def Let_def split: io_result.splits)

lemma add_processed_heap_other:
  "q \<noteq> p \<Longrightarrow> heap (add_processed f p n) q = heap f q"
  by (simp add: add_processed_def)

lemma do_buffered_read_heap:
  "do_buffered_read f sz = (err, f1, d) \<Longrightarrow> heap f1 = heap f"
  by (auto simp: do_buffered_read_def cbuf_get_def Let_def split: if_splits prod.splits
           dest!: socket_call_frame)

lemma recv_buf_iter_heap:
  assumes "recv_buf_iter f p = Inr (f1, d)"
  shows "(\<forall>q. q \<noteq> p \<longrightarrow> heap f1 q = heap f q) \<and> d = req_done f1 p"
proof -
  obtain err g n where dbr:
    "do_buffered_read f (size_req (heap f p) - bytes_processed (heap f p)) = (err, g, n)"
    by (metis prod_cases3)
  from assms dbr have "f1 = add_processed g p n" and "d = req_done f1 p"
    by (auto simp: recv_buf_iter_def Let_def split: if_splits)
  with do_buffered_read_heap [OF dbr] show ?thesis
    by (simp add: add_processed_heap_other)
qed

text \<open>A request is complete when all its bytes were processed; it is settled when it is
  complete or carries an error.\<close>

definition complete_req :: "netpipe_req \<Rightarrow> bool" where
  "complete_req r \<longleftrightarrow> bytes_processed r = size_req r"

lemma req_done_complete: "req_done f p = complete_req (heap f p)"
  by (simp add: req_done_def complete_req_def)

text \<open>\<open>front_only P f req f' req'\<close>: the queue \<open>req'\<close> is what is left of \<open>req\<close> after requests
  were unlinked from its front, each unlinked request satisfies \<open>P\<close>, and no request other
  than the unlinked ones and the new front one was written to.\<close>

definition front_only ::
  "(netpipe_req \<Rightarrow> bool) \<Rightarrow> netpipe \<Rightarrow> nat list \<Rightarrow> netpipe \<Rightarrow> nat list \<Rightarrow> bool" where
  "front_only P f req f' req' \<longleftrightarrow>
     (\<exists>done. req = done @ req' \<and> (\<forall>q\<in>set done. P (heap f' q))
        \<and> (\<forall>q. q \<notin> set done \<and> q \<notin> set (take 1 req') \<longrightarrow> heap f' q = heap f q))"

lemma front_only_refl: "front_only P f req f req"
  by (simp add: front_only_def)

lemma front_only_same:
  assumes h: "\<forall>q. q \<noteq> p \<longrightarrow> heap g q = heap f q" and fo: "front_only P g (p # ps) f' req'"
  shows "front_only P f (p # ps) f' req'"
proof -
  from fo obtain dn where d: "p # ps = dn @ req'" "\<forall>q\<in>set dn. P (heap f' q)"
    "\<forall>q. q \<notin> set dn \<and> q \<notin> set (take 1 req') \<longrightarrow> heap f' q = heap g q"
    by (auto simp: front_only_def)
  have "p \<in> set dn \<or> p \<in> set (take 1 req')"
    using d(1) by (cases dn; cases req') auto
  with d(3) h have "\<forall>q. q \<notin> set dn \<and> q \<notin> set (take 1 req') \<longrightarrow> heap f' q = heap f q"
    by metis
  with d(1,2) show ?thesis unfolding front_only_def by blast
qed

lemma front_only_pop:
  assumes h: "\<forall>q. q \<noteq> p \<longrightarrow> heap g q = heap f q" and dn: "P (heap g p)" and np: "p \<notin> set ps"
    and fo: "front_only P g ps f' req'"
  shows "front_only P f (p # ps) f' req'"
proof -
  from fo obtain dn' where d: "ps = dn' @ req'" "\<forall>q\<in>set dn'. P (heap f' q)"
    "\<forall>q. q \<notin> set dn' \<and> q \<notin> set (take 1 req') \<longrightarrow> heap f' q = heap g q"
    by (auto simp: front_only_def)
  have "set (take 1 req') \<subseteq> set ps" using d(1) by (cases req') auto
  with np d(1) have "p \<notin> set dn'" "p \<notin> set (take 1 req')" by auto
  with d(3) have "heap f' p = heap g p" by simp
  with dn have "P (heap f' p)" by simp
  with d(2) have 1: "\<forall>q\<in>set (p # dn'). P (heap f' q)" by simp
  have 2: "\<forall>q. q \<notin> set (p # dn') \<and> q \<notin> set (take 1 req') \<longrightarrow> heap f' q = heap f q"
    using d(3) h by simp
  have "p # ps = (p # dn') @ req'" using d(1) by simp
  with 1 2 show ?thesis unfolding front_only_def by blast
qed

lemma recv_loop1_front:
  "recv_loop1 f req w = Inr (f', req', w') \<Longrightarrow> distinct req \<Longrightarrow> front_only complete_req f req f' req'"
proof (induction f req w rule: recv_loop1.induct)
  case (1 f wakeup)
  then show ?case by (simp add: front_only_refl)
next
  case (2 f p ps wakeup)
  show ?case
  proof (cases "cbuf_empty (buffer f)")
    case True
    with "2.prems" show ?thesis by (simp add: front_only_refl)
  next
    case False
    with "2.prems" obtain f1 d where it: "recv_buf_iter f p = Inr (f1, d)"
      by (auto split: sum.splits)
    note hp = recv_buf_iter_heap [OF it]
    show ?thesis
    proof (cases d)
      case True
      with False it "2.prems" have "recv_loop1 f1 ps True = Inr (f', req', w')" by simp
      with "2.IH"(1) [OF False it [unfolded True] refl] "2.prems"(2)
      have "front_only complete_req f1 ps f' req'" using True by simp
      with hp True "2.prems"(2) show ?thesis
        by (auto simp: req_done_complete intro: front_only_pop)
    next
      case F: False
      with False it "2.prems" have "recv_loop1 f1 (p # ps) wakeup = Inr (f', req', w')" by simp
      with "2.IH"(2) [OF False it [unfolded F] refl] "2.prems"(2) F
      have "front_only complete_req f1 (p # ps) f' req'" by simp
      with hp show ?thesis by (auto intro: front_only_same)
    qed
  qed
qed



definition front2 :: "netpipe \<Rightarrow> nat list \<Rightarrow> ((int \<times> netpipe) + (netpipe \<times> nat list \<times> size_t \<times> bool)) \<Rightarrow> bool" where
  "front2 f req y = (case y of Inl e \<Rightarrow> fst e \<le> 0 | Inr (f', req', rem', w') \<Rightarrow> distinct req \<longrightarrow> front_only complete_req f req f' req')"

lemma recv_sock_iter_heap:
  assumes "recv_sock_iter f p rem = Inr (f1, d, rem1)"
  shows "(\<forall>q. q \<noteq> p \<longrightarrow> heap f1 q = heap f q) \<and> d = req_done f1 p"
  using assms
  by (auto simp: recv_sock_iter_def Let_def add_processed_heap_other
           split: if_splits prod.splits dest!: socket_call_frame)

lemma recv_sock_iter_Inl: "recv_sock_iter f p rem = Inl e \<Longrightarrow> fst e \<le> 0"
proof -
  assume a: "recv_sock_iter f p rem = Inl e"
  let ?left = "size_req (heap f p) - bytes_processed (heap f p)"
  let ?n = "if ?left < rem then ?left else rem"
  obtain r f1 where s1: "socket_call f (ReadSocket ?n) ?n = (r, f1)" by force
  obtain err f2 where s2:
    "socket_call f1 (SendRead (word_of_int r)) (word_of_int r) = (err, f2)" by force
  from a s1 s2 show ?thesis
    unfolding recv_sock_iter_def Let_def
    by (cases "(word_of_int r :: size_t) = 0"; cases "err \<le> 0"; cases e; simp; simp split: if_splits)
qed

lemma recv_loop2_front_aux:
  assumes "recv_loop2 f req rem w = Some y"
  shows "front2 f req y"
  apply (rule recv_loop2.raw_induct [where P = "\<lambda>f req rem w y. front2 f req y", OF _ assms])
  subgoal premises prems for rl f req rem w y
  proof (cases req)
    case Nil
    with prems(2) show ?thesis by (auto simp: front2_def front_only_refl)
  next
    case (Cons p ps)
    show ?thesis
    proof (cases "\<not> cbuf_empty (buffer f) \<or> rem = 0")
      case True
      with prems(2) Cons show ?thesis by (auto simp: front2_def front_only_refl)
    next
      case False
      show ?thesis
      proof (cases "recv_sock_iter f p rem")
        case (Inl e)
        with prems(2) Cons False show ?thesis
          by (auto simp: front2_def dest: recv_sock_iter_Inl)
      next
        case (Inr t)
        then obtain f1 d rem1 where it: "recv_sock_iter f p rem = Inr (f1, d, rem1)"
          by (cases t) auto
        note hp = recv_sock_iter_heap [OF it]
        show ?thesis
        proof (cases d)
          case True
          with prems(2) Cons False it have "rl f1 ps rem1 True = Some y" by simp
          from prems(1) [OF this] hp True Cons show ?thesis
            by (auto simp: front2_def req_done_complete intro: front_only_pop split: sum.splits)
        next
          case F: False
          with prems(2) Cons False it have "rl f1 req rem1 w = Some y" by simp
          from prems(1) [OF this] hp Cons show ?thesis
            by (auto simp: front2_def intro: front_only_same split: sum.splits)
        qed
      qed
    qed
  qed
  done

lemma recv_loop2_front:
  "recv_loop2 f req rem w = Some (Inr (f', req', rem', w')) \<Longrightarrow> distinct req \<Longrightarrow>
   front_only complete_req f req f' req'"
  using recv_loop2_front_aux [of f req rem w] by (simp add: front2_def)

lemma recv_finish_frame:
  "recv_finish f sz w = (r, f') \<Longrightarrow> heap f' = heap f \<and> rd_req f' = rd_req f \<and> r = size_to_int sz"
  by (auto simp: recv_finish_def Let_def broadcast_def loop_poll_notify_def split: if_splits)

lemma recv_readahead_frame:
  "recv_readahead f sz rem w = (r, f') \<Longrightarrow> heap f' = heap f \<and> rd_req f' = rd_req f"
  by (auto simp: recv_readahead_def cbuf_readn_def Let_def
           split: if_splits prod.splits io_result.splits dest!: recv_finish_frame)

lemma front_only_trans:
  assumes "front_only P f req g req1" and "front_only P g req1 h req2" and "distinct req"
  shows "front_only P f req h req2"
proof -
  from assms(1) obtain d1 where a: "req = d1 @ req1" "\<forall>q\<in>set d1. P (heap g q)"
    "\<forall>q. q \<notin> set d1 \<and> q \<notin> set (take 1 req1) \<longrightarrow> heap g q = heap f q"
    by (auto simp: front_only_def)
  from assms(2) obtain d2 where b: "req1 = d2 @ req2" "\<forall>q\<in>set d2. P (heap h q)"
    "\<forall>q. q \<notin> set d2 \<and> q \<notin> set (take 1 req2) \<longrightarrow> heap h q = heap g q"
    by (auto simp: front_only_def)
  have t1: "set (take 1 req1) \<subseteq> set d2 \<union> set (take 1 req2)"
    using b(1) by (cases d2; cases req2) auto
  have t2: "set (take 1 req2) \<subseteq> set req2" by (cases req2) auto
  have dj: "set d1 \<inter> (set d2 \<union> set req2) = {}"
    using assms(3) a(1) b(1) by auto
  have 1: "\<forall>q\<in>set (d1 @ d2). P (heap h q)"
  proof
    fix q assume "q \<in> set (d1 @ d2)"
    then consider "q \<in> set d2" | "q \<in> set d1" "q \<notin> set d2" by auto
    then show "P (heap h q)"
    proof cases
      case 1 with b(2) show ?thesis by simp
    next
      case 2
      with dj t2 have "q \<notin> set (take 1 req2)" by auto
      with 2 b(3) have "heap h q = heap g q" by simp
      with a(2) 2 show ?thesis by simp
    qed
  qed
  have 2: "\<forall>q. q \<notin> set (d1 @ d2) \<and> q \<notin> set (take 1 req2) \<longrightarrow> heap h q = heap f q"
    using a(3) b(3) t1 by (metis Un_iff set_append subsetD)
  have "req = (d1 @ d2) @ req2" using a(1) b(1) by simp
  with 1 2 show ?thesis unfolding front_only_def by blast
qed

lemma front_only_distinct: "front_only P f req g req1 \<Longrightarrow> distinct req \<Longrightarrow> distinct req1"
  by (auto simp: front_only_def)

lemma recv_buf_iter_Inl: "recv_buf_iter f p = Inl (e, g) \<Longrightarrow> e \<le> 0"
  by (auto simp: recv_buf_iter_def Let_def split: if_splits prod.splits)

lemma recv_loop1_Inl: "recv_loop1 f req w = Inl (e, g) \<Longrightarrow> e \<le> 0"
proof (induction f req w rule: recv_loop1.induct)
  case (1 f wakeup)
  then show ?case by simp
next
  case (2 f p ps wakeup)
  show ?case
  proof (cases "cbuf_empty (buffer f)")
    case True
    with "2.prems" show ?thesis by simp
  next
    case False
    show ?thesis
    proof (cases "recv_buf_iter f p")
      case (Inl x)
      with False "2.prems" show ?thesis by (cases x) (auto dest: recv_buf_iter_Inl)
    next
      case (Inr t)
      then obtain f1 d where it: "recv_buf_iter f p = Inr (f1, d)" by (cases t) auto
      show ?thesis
      proof (cases d)
        case True
        with False it "2.prems" "2.IH"(1) [OF False it [unfolded True] refl]
        show ?thesis by simp
      next
        case F: False
        with False it "2.prems" "2.IH"(2) [OF False it [unfolded F] refl]
        show ?thesis by simp
      qed
    qed
  qed
qed

lemma netpipe_recv_front:
  assumes "netpipe_recv f sz w = Some (r, f')" and "0 < r" and "distinct (rd_req f)"
  shows "front_only complete_req f (rd_req f) f' (rd_req f')"
proof -
  from assms(1,2) obtain f1 req1 w1 where l1: "recv_loop1 f (rd_req f) w = Inr (f1, req1, w1)"
    by (cases "recv_loop1 f (rd_req f) w")
       (auto simp: netpipe_recv_def dest: recv_loop1_Inl)
  let ?f2 = "f1\<lparr>rd_req := req1\<rparr>"
  have fo1: "front_only complete_req f (rd_req f) f1 req1"
    using recv_loop1_front [OF l1 assms(3)] .
  from assms(1) l1 obtain y where l2: "recv_loop2 ?f2 req1 sz w1 = Some y"
    by (auto simp: netpipe_recv_def Let_def split: option.splits)
  from recv_loop2_front_aux [OF l2] assms(1,2) l1 l2
  obtain f3 req3 rem3 w3 where y: "y = Inr (f3, req3, rem3, w3)"
    by (cases y) (auto simp: netpipe_recv_def Let_def front2_def)
  have d1: "distinct req1" using front_only_distinct [OF fo1 assms(3)] .
  have fo2: "front_only complete_req ?f2 req1 f3 req3"
    using recv_loop2_front [OF l2 [unfolded y] d1] .
  have fo2': "front_only complete_req f1 req1 f3 req3"
    using fo2 by (simp add: front_only_def)
  from assms(1) l1 l2 y have ra: "recv_readahead (f3\<lparr>rd_req := req3\<rparr>) sz rem3 w3 = (r, f')"
    by (simp add: netpipe_recv_def Let_def)
  from recv_readahead_frame [OF ra] have e: "heap f' = heap f3" "rd_req f' = req3" by simp_all
  have "front_only complete_req f (rd_req f) f3 req3"
    using front_only_trans [OF fo1 fo2' assms(3)] .
  with e show ?thesis by (simp add: front_only_def)
qed

lemma do_send_heap: "do_send f sz = (err, f1, bytes) \<Longrightarrow> heap f1 = heap f"
  by (auto simp: do_send_def Let_def split: if_splits prod.splits dest!: socket_call_frame)

lemma send_req_iter_Inr:
  assumes "send_req_iter f p = Inr (f1, d, bytes)"
  shows "(\<forall>q. q \<noteq> p \<longrightarrow> heap f1 q = heap f q) \<and> d = req_done f1 p"
proof -
  obtain err g n where ds:
    "do_send f (size_req (heap f p) - bytes_processed (heap f p)) = (err, g, n)"
    by (metis prod_cases3)
  from assms ds have pos: "0 < err" and f1: "f1 = add_processed g p n" and d: "d = req_done f1 p"
    by (auto simp: send_req_iter_def Let_def split: if_splits)
  from do_send_cases [OF ds pos] f1 d show ?thesis
    by (simp add: add_processed_heap_other)
qed

lemma send_req_iter_Inl:
  assumes "send_req_iter f p = Inl f1"
  shows "\<forall>q. q \<noteq> p \<longrightarrow> heap f1 q = heap f q"
proof -
  obtain err g n where ds:
    "do_send f (size_req (heap f p) - bytes_processed (heap f p)) = (err, g, n)"
    by (metis prod_cases3)
  from assms ds have
    f1: "f1 = broadcast Wr (set_error g p (if err = 0 then Some ECONNRESET else errno_var g))"
    by (auto simp: send_req_iter_def Let_def split: if_splits)
  from do_send_heap [OF ds] f1 show ?thesis
    by (auto simp: broadcast_def set_error_def)
qed

definition err_front :: "netpipe \<Rightarrow> nat list \<Rightarrow> netpipe \<Rightarrow> nat list \<Rightarrow> bool" where
  "err_front f req f' req' \<longleftrightarrow>
     (\<exists>done p. req = done @ p # req' \<and> (\<forall>q\<in>set done. complete_req (heap f' q))
        \<and> (\<forall>q. q \<notin> set done \<and> q \<noteq> p \<longrightarrow> heap f' q = heap f q))"

lemma err_front_last:
  assumes "\<forall>q. q \<noteq> p \<longrightarrow> heap g q = heap f q"
  shows "err_front f (p # ps) g ps"
proof -
  have "p # ps = [] @ p # ps" by simp
  moreover have "\<forall>q\<in>set []. complete_req (heap g q)" by simp
  moreover have "\<forall>q. q \<notin> set [] \<and> q \<noteq> p \<longrightarrow> heap g q = heap f q" using assms by simp
  ultimately show ?thesis unfolding err_front_def by blast
qed

lemma err_front_same:
  assumes h: "\<forall>q. q \<noteq> p \<longrightarrow> heap g q = heap f q" and fo: "err_front g (p # ps) f' req'"
  shows "err_front f (p # ps) f' req'"
proof -
  from fo obtain dn e where d: "p # ps = dn @ e # req'" "\<forall>q\<in>set dn. complete_req (heap f' q)"
    "\<forall>q. q \<notin> set dn \<and> q \<noteq> e \<longrightarrow> heap f' q = heap g q"
    by (auto simp: err_front_def)
  have "p \<in> set dn \<or> p = e" using d(1) by (cases dn) auto
  with d(3) h have "\<forall>q. q \<notin> set dn \<and> q \<noteq> e \<longrightarrow> heap f' q = heap f q" by metis
  with d(1,2) show ?thesis unfolding err_front_def by blast
qed

lemma err_front_pop:
  assumes h: "\<forall>q. q \<noteq> p \<longrightarrow> heap g q = heap f q" and dn: "complete_req (heap g p)"
    and np: "p \<notin> set ps" and fo: "err_front g ps f' req'"
  shows "err_front f (p # ps) f' req'"
proof -
  from fo obtain dn' e where d: "ps = dn' @ e # req'" "\<forall>q\<in>set dn'. complete_req (heap f' q)"
    "\<forall>q. q \<notin> set dn' \<and> q \<noteq> e \<longrightarrow> heap f' q = heap g q"
    by (auto simp: err_front_def)
  from np d(1) have "p \<notin> set dn'" "p \<noteq> e" by auto
  with d(3) have "heap f' p = heap g p" by simp
  with dn have "complete_req (heap f' p)" by simp
  with d(2) have 1: "\<forall>q\<in>set (p # dn'). complete_req (heap f' q)" by simp
  have 2: "\<forall>q. q \<notin> set (p # dn') \<and> q \<noteq> e \<longrightarrow> heap f' q = heap f q"
    using d(3) h by simp
  have "p # ps = (p # dn') @ e # req'" using d(1) by simp
  with 1 2 show ?thesis unfolding err_front_def by blast
qed

lemma err_front_heap_eq:
  "err_front f req f' req' \<Longrightarrow> heap g = heap f \<Longrightarrow> heap g' = heap f' \<Longrightarrow>
   err_front g req g' req'"
  by (simp add: err_front_def)

definition front1 ::
  "netpipe \<Rightarrow> nat list \<Rightarrow> (size_t \<times> netpipe) + (netpipe \<times> nat list \<times> size_t) \<Rightarrow> bool" where
  "front1 f req y =
     (case y of Inl (n, f') \<Rightarrow> err_front f req f' (wr_req f')
      | Inr (f', req', d') \<Rightarrow> front_only complete_req f req f' req')"

lemma send_loop1_front:
  "distinct req \<Longrightarrow> front1 f req (send_loop1 f req ds)"
proof (induction f req ds rule: send_loop1.induct)
  case (1 f datasent)
  then show ?case by (simp add: front1_def front_only_refl)
next
  case (2 f p ps datasent)
  show ?case
  proof (cases "available_remote f > 0")
    case False
    then show ?thesis by (simp add: front1_def front_only_refl)
  next
    case av: True
    then have nav: "\<not> \<not> available_remote f > 0" by simp
    show ?thesis
    proof (cases "send_req_iter f p")
      case (Inl f1)
      from send_req_iter_Inl [OF Inl]
      have "err_front f (p # ps) (f1\<lparr>wr_req := ps\<rparr>) ps"
        by (intro err_front_last) simp
      with av Inl show ?thesis by (simp add: front1_def)
    next
      case (Inr t)
      then obtain f1 d bytes where it: "send_req_iter f p = Inr (f1, d, bytes)"
        by (cases t) auto
      note hp = send_req_iter_Inr [OF it]
      show ?thesis
      proof (cases d)
        case True
        from "2.IH"(1) [OF nav it [unfolded True] refl refl] "2.prems" True
        have ih: "front1 f1 ps (send_loop1 f1 ps (datasent + bytes))" by simp
        from "2.prems" have np: "p \<notin> set ps" by simp
        from hp True have cp: "complete_req (heap f1 p)" by (simp add: req_done_complete)
        have "front1 f (p # ps) (send_loop1 f1 ps (datasent + bytes))"
          using ih front_only_pop [where P = complete_req, OF hp [THEN conjunct1] cp np]
            err_front_pop [OF hp [THEN conjunct1] cp np]
          by (auto simp: front1_def split: sum.splits)
        with av it True show ?thesis by simp
      next
        case F: False
        from "2.IH"(2) [OF nav it [unfolded F] refl refl] "2.prems" F
        have ih: "front1 f1 (p # ps) (send_loop1 f1 (p # ps) (datasent + bytes))" by simp
        have "front1 f (p # ps) (send_loop1 f1 (p # ps) (datasent + bytes))"
          using ih front_only_same [where P = complete_req, OF hp [THEN conjunct1]]
            err_front_same [OF hp [THEN conjunct1]]
          by (auto simp: front1_def split: sum.splits)
        with av it F show ?thesis by simp
      qed
    qed
  qed
qed

lemma writeahead_iter_heap:
  assumes "writeahead_iter f p = (f1, d, bytes)"
  shows "(\<forall>q. q \<noteq> p \<longrightarrow> heap f1 q = heap f q) \<and> d = req_done f1 p"
  using assms
  by (auto simp: writeahead_iter_def Let_def add_processed_def split: prod.splits)

definition front2w :: "netpipe \<Rightarrow> nat list \<Rightarrow> netpipe \<times> nat list \<times> size_t \<Rightarrow> bool" where
  "front2w f req y = (case y of (f', req', d') \<Rightarrow> front_only complete_req f req f' req')"

lemma send_loop2_front:
  "distinct req \<Longrightarrow> front2w f req (send_loop2 f req ds)"
proof (induction f req ds rule: send_loop2.induct)
  case (1 f datasent)
  then show ?case by (simp add: front2w_def front_only_refl)
next
  case (2 f p ps datasent)
  show ?case
  proof (cases "cbuf_full (buffer f)")
    case True
    then show ?thesis by (simp add: front2w_def front_only_refl)
  next
    case nf: False
    obtain f1 d bytes where it: "writeahead_iter f p = (f1, d, bytes)"
      by (metis prod_cases3)
    note hp = writeahead_iter_heap [OF it]
    show ?thesis
    proof (cases d)
      case True
      from True have dT: "d = True" by simp
      from "2.IH"(1) [OF nf it [symmetric] refl dT] "2.prems"
      have ih: "front2w f1 ps (send_loop2 f1 ps (datasent + bytes))" by simp
      from "2.prems" have np: "p \<notin> set ps" by simp
      from hp True have cp: "complete_req (heap f1 p)" by (simp add: req_done_complete)
      have "front2w f (p # ps) (send_loop2 f1 ps (datasent + bytes))"
        using ih front_only_pop [where P = complete_req, OF hp [THEN conjunct1] cp np]
        by (auto simp: front2w_def split: prod.splits)
      with nf it True show ?thesis by simp
    next
      case F: False
      from F have dF: "d = False" by simp
      from "2.IH"(2) [OF nf it [symmetric] refl dF] "2.prems"
      have ih: "front2w f1 (p # ps) (send_loop2 f1 (p # ps) (datasent + bytes))" by simp
      have "front2w f (p # ps) (send_loop2 f1 (p # ps) (datasent + bytes))"
        using ih front_only_same [where P = complete_req, OF hp [THEN conjunct1]]
        by (auto simp: front2w_def split: prod.splits)
      with nf it F show ?thesis by simp
    qed
  qed
qed

lemma do_flush_frame:
  "do_flush f = (err, f1, bytes) \<Longrightarrow> heap f1 = heap f \<and> wr_req f1 = wr_req f \<and> rd_req f1 = rd_req f"
  by (auto simp: do_flush_def Let_def split: if_splits prod.splits dest!: socket_call_frame)

lemma front_only_heap_eq:
  "front_only P f req f' req' \<Longrightarrow> heap g = heap f \<Longrightarrow> heap g' = heap f' \<Longrightarrow>
   front_only P g req g' req'"
  by (simp add: front_only_def)

lemma send_data_front:
  assumes "send_data f = (n, f')" and "distinct (wr_req f)"
  shows "front_only complete_req f (wr_req f) f' (wr_req f')
       \<or> err_front f (wr_req f) f' (wr_req f')"
proof -
  obtain err f1 bytes where fl: "do_flush f = (err, f1, bytes)" by (metis prod_cases3)
  note fr = do_flush_frame [OF fl]
  show ?thesis
  proof (cases "err \<le> 0")
    case True
    with assms(1) fl have "f' = f1" by (simp add: send_data_def)
    with fr show ?thesis by (simp add: front_only_def)
  next
    case False
    let ?ds = "if bytes > 0 then bytes else 0"
    have d1: "distinct (wr_req f1)" using fr assms(2) by simp
    note l1 = send_loop1_front [OF d1, of f1 ?ds]
    show ?thesis
    proof (cases "send_loop1 f1 (wr_req f1) ?ds")
      case (Inl r)
      with assms(1) fl False have "r = (n, f')" by (simp add: send_data_def Let_def)
      with l1 Inl have "err_front f1 (wr_req f1) f' (wr_req f')"
        by (simp add: front1_def)
      from err_front_heap_eq [OF this, of f f'] fr show ?thesis by simp
    next
      case (Inr t)
      then obtain f2 req2 ds2 where e1: "send_loop1 f1 (wr_req f1) ?ds = Inr (f2, req2, ds2)"
        by (cases t) auto
      with l1 have fo1: "front_only complete_req f1 (wr_req f1) f2 req2" by (simp add: front1_def)
      have d2: "distinct req2" using front_only_distinct [OF fo1 d1] .
      obtain f4 req4 ds4 where e2: "send_loop2 (f2\<lparr>wr_req := req2\<rparr>) req2 ds2 = (f4, req4, ds4)"
        by (metis prod_cases3)
      from send_loop2_front [OF d2, of "f2\<lparr>wr_req := req2\<rparr>" ds2] e2
      have "front_only complete_req (f2\<lparr>wr_req := req2\<rparr>) req2 f4 req4" by (simp add: front2w_def)
      then have fo2: "front_only complete_req f2 req2 f4 req4" by (simp add: front_only_def)
      from assms(1) fl False e1 e2 have h: "heap f' = heap f4" and w: "wr_req f' = req4"
        by (auto simp: send_data_def Let_def loop_poll_notify_def split: if_splits)
      have "front_only complete_req f1 (wr_req f1) f4 req4"
        using front_only_trans [OF fo1 fo2 d1] .
      from front_only_heap_eq [OF this, of f f'] fr h w show ?thesis by simp
    qed
  qed
qed

lemma front_only_tl:
  assumes "front_only P f req f' req'" and "distinct req"
  shows "\<exists>done. req = done @ req' \<and> (\<forall>q\<in>set done. P (heap f' q))
           \<and> (\<forall>q\<in>set (tl req'). heap f' q = heap f q)"
proof -
  from assms(1) obtain dn where d: "req = dn @ req'" "\<forall>q\<in>set dn. P (heap f' q)"
    "\<forall>q. q \<notin> set dn \<and> q \<notin> set (take 1 req') \<longrightarrow> heap f' q = heap f q"
    by (auto simp: front_only_def)
  have "\<forall>q\<in>set (tl req'). q \<notin> set dn \<and> q \<notin> set (take 1 req')"
    using assms(2) d(1) by (cases req') auto
  with d show ?thesis by blast
qed

lemma front_only_starve:
  assumes "front_only complete_req f (p # ps) f' req'" and "distinct (p # ps)"
    and "\<not> complete_req (heap f' p)"
  shows "\<forall>q\<in>set ps. heap f' q = heap f q"
proof -
  from assms(1) obtain dn where d: "p # ps = dn @ req'" "\<forall>q\<in>set dn. complete_req (heap f' q)"
    "\<forall>q. q \<notin> set dn \<and> q \<notin> set (take 1 req') \<longrightarrow> heap f' q = heap f q"
    by (auto simp: front_only_def)
  have "dn = []"
  proof (cases dn)
    case (Cons a as)
    with d(1) have "a = p" by simp
    with Cons d(2) assms(3) show ?thesis by simp
  qed simp
  with d(1) have "req' = p # ps" by simp
  with d(3) \<open>dn = []\<close> have "\<forall>q. q \<noteq> p \<longrightarrow> heap f' q = heap f q" by simp
  with assms(2) show ?thesis by auto
qed

lemma err_front_starve:
  assumes "err_front f (p # ps) f' req'" and "distinct (p # ps)"
    and "\<not> complete_req (heap f' p)"
  shows "\<forall>q\<in>set ps. heap f' q = heap f q"
proof -
  from assms(1) obtain dn e where d: "p # ps = dn @ e # req'"
    "\<forall>q\<in>set dn. complete_req (heap f' q)"
    "\<forall>q. q \<notin> set dn \<and> q \<noteq> e \<longrightarrow> heap f' q = heap f q"
    by (auto simp: err_front_def)
  have "dn = []"
  proof (cases dn)
    case (Cons a as)
    with d(1) have "a = p" by simp
    with Cons d(2) assms(3) show ?thesis by simp
  qed simp
  with d(1) have "e = p" by simp
  with d(3) \<open>dn = []\<close> have "\<forall>q. q \<noteq> p \<longrightarrow> heap f' q = heap f q" by simp
  with assms(2) show ?thesis by auto
qed

lemma err_front_tl:
  assumes "err_front f req f' req'" and "distinct req"
  shows "\<exists>done. req = done @ req' \<and> (\<forall>q\<in>set (butlast done). complete_req (heap f' q))
           \<and> (\<forall>q\<in>set (tl req'). heap f' q = heap f q)"
proof -
  from assms(1) obtain dn e where d: "req = dn @ e # req'"
    "\<forall>q\<in>set dn. complete_req (heap f' q)"
    "\<forall>q. q \<notin> set dn \<and> q \<noteq> e \<longrightarrow> heap f' q = heap f q"
    by (auto simp: err_front_def)
  have "\<forall>q\<in>set (tl req'). q \<notin> set dn \<and> q \<noteq> e"
    using assms(2) d(1) by (cases req') auto
  with d(3) have 1: "\<forall>q\<in>set (tl req'). heap f' q = heap f q" by blast
  have 2: "req = (dn @ [e]) @ req'" using d(1) by simp
  have 3: "\<forall>q\<in>set (butlast (dn @ [e])). complete_req (heap f' q)" using d(2) by simp
  from 1 2 3 show ?thesis by blast
qed

lemma front_only_tl_butlast:
  assumes "front_only complete_req f req f' req'" and "distinct req"
  shows "\<exists>done. req = done @ req' \<and> (\<forall>q\<in>set (butlast done). complete_req (heap f' q))
           \<and> (\<forall>q\<in>set (tl req'). heap f' q = heap f q)"
proof -
  from front_only_tl [OF assms] obtain dn where d: "req = dn @ req'"
    "\<forall>q\<in>set dn. complete_req (heap f' q)" "\<forall>q\<in>set (tl req'). heap f' q = heap f q"
    by blast
  from d(2) have "\<forall>q\<in>set (butlast dn). complete_req (heap f' q)"
    by (auto dest: in_set_butlastD)
  with d(1,3) show ?thesis by blast
qed

lemma recv_sock_iter_ok:
  assumes ok: "io f (ncalls f) = IoOk"
    and t: "t = (if size_req (heap f p) - bytes_processed (heap f p) < rem
                 then size_req (heap f p) - bytes_processed (heap f p) else rem)"
    and nz: "t \<noteq> 0"
  shows "(\<exists>e. recv_sock_iter f p rem = Inl e \<and> fst e \<le> 0)
       \<or> (\<exists>f3. recv_sock_iter f p rem = Inr (f3, req_done f3 p, rem - t)
              \<and> bytes_processed (heap f3 p) = bytes_processed (heap f p) + t
              \<and> size_req (heap f3 p) = size_req (heap f p))"
proof -
  let ?g1 = "f\<lparr>ncalls := Suc (ncalls f), trace := trace f @ [ReadSocket t]\<rparr>"
  have s1: "socket_call f (ReadSocket t) t = (uint t, ?g1)"
    using ok by (simp add: socket_call_def io_value_def Let_def)
  obtain err g2 where s2: "socket_call ?g1 (SendRead t) t = (err, g2)" by force
  from socket_call_frame [OF s2] have hg: "heap g2 = heap f" by simp
  show ?thesis
  proof (cases "err \<le> 0")
    case True
    with s1 s2 t nz have "recv_sock_iter f p rem = Inl (err, g2)"
      by (simp add: recv_sock_iter_def Let_def)
    with True show ?thesis by simp
  next
    case False
    with s1 s2 t nz
    have "recv_sock_iter f p rem
            = Inr (add_processed g2 p t, req_done (add_processed g2 p t) p, rem - t)"
      by (simp add: recv_sock_iter_def Let_def)
    moreover have "bytes_processed (heap (add_processed g2 p t) p) = bytes_processed (heap f p) + t"
      "size_req (heap (add_processed g2 p t) p) = size_req (heap f p)"
      using hg by (simp_all add: add_processed_def)
    ultimately show ?thesis by blast
  qed
qed

lemma front_only_outside:
  assumes "front_only P f req f' req'" and "p \<notin> set req"
  shows "heap f' p = heap f p"
proof -
  from assms(1) obtain dn where d: "req = dn @ req'"
    "\<forall>q. q \<notin> set dn \<and> q \<notin> set (take 1 req') \<longrightarrow> heap f' q = heap f q"
    by (auto simp: front_only_def)
  have "set (take 1 req') \<subseteq> set req'" by (cases req') auto
  with d(1) assms(2) have "p \<notin> set dn \<and> p \<notin> set (take 1 req')" by auto
  with d(2) show ?thesis by blast
qed

lemma newest_reader_first:
  assumes fresh: "p \<notin> set (rd_req h)" and dist: "distinct (rd_req h)"
    and empty: "cbuf_empty (buffer h)" and ok: "io h (ncalls h) = IoOk"
    and n: "n \<noteq> 0" and sz: "sz \<noteq> 0"
    and recv: "netpipe_recv (netpipe_add_request h p n O_RDONLY) sz w = Some (r, h')"
    and pos: "0 < r"
  shows "bytes_processed (heap h' p) = (if n < sz then n else sz)"
proof -
  let ?f1 = "netpipe_add_request h p n O_RDONLY"
  let ?ps = "rd_req h"
  let ?t = "if n < sz then n else sz"
  have q: "rd_req ?f1 = p # ?ps" and b: "cbuf_empty (buffer ?f1)"
    and hp: "bytes_processed (heap ?f1 p) = 0" "size_req (heap ?f1 p) = n"
    and io1: "io ?f1 (ncalls ?f1) = IoOk"
    using empty ok by (simp_all add: netpipe_add_request_def Let_def)
  have l1: "recv_loop1 ?f1 (rd_req ?f1) w = Inr (?f1, p # ?ps, w)"
    using q b by simp
  let ?f2 = "?f1\<lparr>rd_req := p # ?ps\<rparr>"
  have b2: "cbuf_empty (buffer ?f2)" and hp2: "bytes_processed (heap ?f2 p) = 0"
    "size_req (heap ?f2 p) = n" and io2: "io ?f2 (ncalls ?f2) = IoOk"
    using b hp io1 by simp_all
  from recv l1 obtain y where l2: "recv_loop2 ?f2 (p # ?ps) sz w = Some y"
    and res: "(case y of Inl e \<Rightarrow> Some e
               | Inr (f3, req3, remaining, wakeup3) \<Rightarrow>
                   Some (recv_readahead (f3\<lparr>rd_req := req3\<rparr>) sz remaining wakeup3))
              = Some (r, h')"
    by (auto simp: netpipe_recv_def Let_def split: option.splits sum.splits)
  have tn: "?t \<noteq> 0" using n sz by simp
  have tt: "?t = (if size_req (heap ?f2 p) - bytes_processed (heap ?f2 p) < sz
                 then size_req (heap ?f2 p) - bytes_processed (heap ?f2 p) else sz)"
    using hp2 by simp
  have unf: "recv_loop2 ?f2 (p # ?ps) sz w =
       (case recv_sock_iter ?f2 p sz of
          Inl e \<Rightarrow> Some (Inl e)
        | Inr (f1, done, remaining1) \<Rightarrow>
            if done then recv_loop2 f1 ?ps remaining1 True
            else recv_loop2 f1 (p # ?ps) remaining1 w)"
    using b2 sz by (subst recv_loop2.simps) simp
  from recv_sock_iter_ok [OF io2 tt tn]
  show ?thesis
  proof
    assume "\<exists>e. recv_sock_iter ?f2 p sz = Inl e \<and> fst e \<le> 0"
    then obtain e where e: "recv_sock_iter ?f2 p sz = Inl e" "fst e \<le> 0" by blast
    with unf l2 have "y = Inl e" by simp
    with res e(2) pos show ?thesis by (cases e) auto
  next
    assume "\<exists>f3. recv_sock_iter ?f2 p sz = Inr (f3, req_done f3 p, sz - ?t)
              \<and> bytes_processed (heap f3 p) = bytes_processed (heap ?f2 p) + ?t
              \<and> size_req (heap f3 p) = size_req (heap ?f2 p)"
    then obtain f3 where it: "recv_sock_iter ?f2 p sz = Inr (f3, req_done f3 p, sz - ?t)"
      and bp: "bytes_processed (heap f3 p) = ?t" and sr: "size_req (heap f3 p) = n"
      using hp2 by auto
    show ?thesis
    proof (cases "req_done f3 p")
      case True
      with unf it l2 have l3: "recv_loop2 f3 ?ps (sz - ?t) True = Some y" by simp
      from recv_loop2_front_aux [OF l3] res pos
      obtain f4 req4 rem4 w4 where y: "y = Inr (f4, req4, rem4, w4)"
        by (cases y) (auto simp: front2_def)
      from recv_loop2_front [OF l3 [unfolded y] dist]
      have "heap f4 p = heap f3 p" using fresh by (rule front_only_outside)
      moreover from res y have "recv_readahead (f4\<lparr>rd_req := req4\<rparr>) sz rem4 w4 = (r, h')"
        by simp
      from recv_readahead_frame [OF this] have "heap h' = heap f4" by simp
      ultimately show ?thesis using bp by simp
    next
      case False
      then have "?t \<noteq> n" using bp sr by (auto simp: req_done_def)
      then have z: "sz - ?t = 0" by (auto split: if_splits)
      from unf it l2 False have "recv_loop2 f3 (p # ?ps) (sz - ?t) w = Some y" by simp
      then have y: "y = Inr (f3, p # ?ps, 0, w)"
        unfolding z by (subst (asm) recv_loop2.simps) simp
      from res y have "recv_readahead (f3\<lparr>rd_req := p # ?ps\<rparr>) sz 0 w = (r, h')" by simp
      from recv_readahead_frame [OF this] have "heap h' = heap f3" by simp
      with bp show ?thesis by simp
    qed
  qed
qed

lemma to_int_small:
  fixes n :: size_t
  assumes "unat n < 2 ^ 31"
  shows "to_int (uint n) = uint n"
proof -
  have "int (unat n) < int (2 ^ 31)" using assms by (simp only: of_nat_less_iff)
  then have lt: "uint n < 2 ^ 31" by simp
  have "- (2 ^ 31) \<le> (0::int)" by simp
  also have "(0::int) \<le> uint n" by simp
  finally have ge: "- (2 ^ 31) \<le> uint n" .
  have "to_int (uint n) = signed_take_bit (LENGTH(32) - 1) (uint n)"
    unfolding to_int_def by (rule sint_sbintrunc')
  also have "\<dots> = signed_take_bit 31 (uint n)" by simp
  also have "\<dots> = uint n" using ge lt by (rule signed_take_bit_int_eq_self)
  finally show ?thesis .
qed

lemma do_send_ok:
  assumes ok: "io f (ncalls f) = IoOk" and nz: "sz \<noteq> 0" and le: "sz \<le> available_remote f"
    and small: "unat sz < 2 ^ 31"
  shows "\<exists>f1. do_send f sz = (1, f1, sz) \<and> heap f1 = heap f"
proof -
  have bs: "(if sz < available_remote f then sz else available_remote f) = sz"
    using le by auto
  obtain g where sc: "socket_call f (SendWrite sz) sz = (uint sz, g)"
    using ok by (simp add: socket_call_def io_value_def Let_def)
  from socket_call_frame [OF sc] have hg: "heap g = heap f" by simp
  have ti: "to_int (uint sz) = uint sz" using small by (rule to_int_small)
  have "uint sz \<noteq> 0" using nz by (simp add: uint_0_iff)
  moreover have "0 \<le> uint sz" by simp
  ultimately have pos: "\<not> uint sz \<le> 0" by linarith
  have w: "(word_of_int (uint sz) :: size_t) = sz" by simp
  have "do_send f sz = (1, g\<lparr>remotesize := remotesize g + sz\<rparr>, sz)"
    unfolding do_send_def Let_def bs using nz sc ti pos w by simp
  with hg show ?thesis by simp
qed

lemma err_front_outside:
  assumes "err_front f req f' req'" and "p \<notin> set req"
  shows "heap f' p = heap f p"
proof -
  from assms(1) obtain dn e where d: "req = dn @ e # req'"
    "\<forall>q. q \<notin> set dn \<and> q \<noteq> e \<longrightarrow> heap f' q = heap f q"
    by (auto simp: err_front_def)
  from d(1) assms(2) have "p \<notin> set dn \<and> p \<noteq> e" by auto
  with d(2) show ?thesis by blast
qed

lemma front_only_suffix: "front_only P f req f' req' \<Longrightarrow> set req' \<subseteq> set req"
  by (auto simp: front_only_def)

lemma newest_writer_first:
  assumes fresh: "p \<notin> set (wr_req h)" and dist: "distinct (wr_req h)"
    and empty: "cbuf_empty (buffer h)" and ok: "io h (ncalls h) = IoOk"
    and n: "n \<noteq> 0" and credit: "n \<le> available_remote h" and small: "unat n < 2 ^ 31"
    and send: "send_data (netpipe_add_request h p n O_WRONLY) = (m, h')"
  shows "bytes_processed (heap h' p) = n"
proof -
  let ?f0 = "netpipe_add_request h p n O_WRONLY"
  let ?ps = "wr_req h"
  have q: "wr_req ?f0 = p # ?ps" and b: "cbuf_size (buffer ?f0) = 0"
    and hp: "bytes_processed (heap ?f0 p) = 0" "size_req (heap ?f0 p) = n"
    and io0: "io ?f0 (ncalls ?f0) = IoOk"
    and av: "available_remote ?f0 = available_remote h"
    using empty ok
    by (simp_all add: netpipe_add_request_def Let_def O_RDONLY_def O_WRONLY_def
          cbuf_empty_def cbuf_size_def available_remote_def)
  have avp: "available_remote ?f0 > 0"
    using n credit av by (metis word_gt_0 word_le_0_iff)
  have fl: "do_flush ?f0 = (1, ?f0, 0)"
    unfolding do_flush_def Let_def b using avp by simp
  have rem: "size_req (heap ?f0 p) - bytes_processed (heap ?f0 p) = n" using hp by simp
  from do_send_ok [OF io0 n _ small, of ] credit av
  obtain f1 where ds: "do_send ?f0 n = (1, f1, n)" and h1: "heap f1 = heap ?f0" by auto
  let ?f2 = "add_processed f1 p n"
  have bp2: "bytes_processed (heap ?f2 p) = n" and dn2: "req_done ?f2 p"
    using h1 hp by (simp_all add: add_processed_def req_done_def)
  have it: "send_req_iter ?f0 p = Inr (?f2, True, n)"
    unfolding send_req_iter_def Let_def rem using ds dn2 by simp
  let ?y = "send_loop1 ?f2 ?ps (0 + n)"
  have l1: "send_loop1 ?f0 (wr_req ?f0) 0 = ?y"
    unfolding q using avp it by simp
  have fr: "front1 ?f2 ?ps ?y" using dist by (rule send_loop1_front)
  show ?thesis
  proof (cases ?y)
    case (Inl r)
    obtain k f' where r: "r = (k, f')" by force
    from send fl l1 Inl r have "h' = f'" by (simp add: send_data_def Let_def)
    moreover from fr Inl r have "err_front ?f2 ?ps f' (wr_req f')" by (simp add: front1_def)
    then have "heap f' p = heap ?f2 p" using fresh by (rule err_front_outside)
    ultimately show ?thesis using bp2 by simp
  next
    case (Inr t)
    then obtain f3 req3 ds3 where e1: "?y = Inr (f3, req3, ds3)" by (cases t) auto
    with fr have fo1: "front_only complete_req ?f2 ?ps f3 req3" by (simp add: front1_def)
    then have h3: "heap f3 p = heap ?f2 p" using fresh by (rule front_only_outside)
    have d3: "distinct req3" using front_only_distinct [OF fo1 dist] .
    have p3: "p \<notin> set req3" using front_only_suffix [OF fo1] fresh by auto
    obtain f4 req4 ds4 where e2: "send_loop2 (f3\<lparr>wr_req := req3\<rparr>) req3 ds3 = (f4, req4, ds4)"
      by (metis prod_cases3)
    from send_loop2_front [OF d3, of "f3\<lparr>wr_req := req3\<rparr>" ds3] e2
    have "front_only complete_req (f3\<lparr>wr_req := req3\<rparr>) req3 f4 req4" by (simp add: front2w_def)
    then have "heap f4 p = heap (f3\<lparr>wr_req := req3\<rparr>) p" using p3 by (rule front_only_outside)
    then have h4: "heap f4 p = heap f3 p" by simp
    from send fl l1 e1 e2 have "heap h' = heap f4"
      by (auto simp: send_data_def Let_def loop_poll_notify_def split: if_splits)
    with h4 h3 bp2 show ?thesis by simp
  qed
qed

definition two_readers :: netpipe where
  "two_readers =
     netpipe_add_request
       (netpipe_add_request (netpipe_alloc 16 16 (\<lambda>k. IoOk)) 1 2 O_RDONLY) 2 2 O_RDONLY"

definition progress_after_recv :: "netpipe \<Rightarrow> size_t \<Rightarrow> bool \<Rightarrow> nat \<Rightarrow> (int \<times> size_t) option" where
  "progress_after_recv f sz w p =
     (case netpipe_recv f sz w of None \<Rightarrow> None
      | Some (r, f') \<Rightarrow> Some (r, bytes_processed (heap f' p)))"

lemma two_readers_queue: "rd_req two_readers = [2, 1]"
  by (simp add: two_readers_def netpipe_add_request_def netpipe_alloc_def O_RDONLY_def Let_def)

text \<open>
  Claim C1, as stated, fails: \<^verbatim>\<open>netpipe_add_request\<close> links a new request in front of the
  list and \<^verbatim>\<open>netpipe_recv\<close> serves the list from its front. In \<open>two_readers\<close> the request at
  address 1 is enqueued first and the one at address 2 second; when 2 bytes arrive, the request
  at address 2 is completed and the one enqueued first has received nothing.
\<close>

theorem fifo_service_counterexample:
  "rd_req two_readers = [2, 1] \<and>
   progress_after_recv two_readers 2 False 2 = Some (2, 2) \<and>
   progress_after_recv two_readers 2 False 1 = Some (2, 0)"
  by (simp add: progress_after_recv_def netpipe_recv_def two_readers_def netpipe_add_request_def
        netpipe_alloc_def O_RDONLY_def Let_def cbuf_empty_def recv_loop2.simps
        recv_sock_iter_def socket_call_def io_value_def add_processed_def req_done_def
        recv_readahead_def recv_finish_def size_to_int_def loop_poll_notify_def broadcast_def)

text \<open>
  Claim C1, amended: pending requests are kept in a list that \<^verbatim>\<open>netpipe_add_request\<close> extends
  at the front, and the list is served from the front, so that the request enqueued last is
  served first and not the one enqueued first.

  For \<^verbatim>\<open>netpipe_recv\<close> this is stated for the calls that return the positive byte count; a
  call that returns 0 or -1 because a socket call failed returns at once, with the requests it
  has completed still in the list. With distinct request addresses, after a call that returned
  a positive count the requests that left the list are a prefix of it and each of them is
  complete, no request behind the front of the remaining list was touched, and if the request
  at the front of the list is not yet complete then no request behind it was touched. If,
  moreover, the local buffer is empty, the next socket call succeeds, and a request for
  \<open>n > 0\<close> bytes is added at a new address, then a call for \<open>sz > 0\<close> bytes gives the new
  request \<open>min n sz\<close> bytes, whatever requests were waiting before it.

  For \<^verbatim>\<open>send_data\<close>, whatever it returns and with distinct request addresses: the requests that
  left the list are a prefix of it, each of them except possibly the last one to leave (the
  one whose send failed) is complete, no request behind the front of the remaining list was
  touched, and if the request at the front of the list is not complete afterwards then no
  request behind it was touched. If, moreover, the local buffer is empty, the next socket call
  succeeds, and a request for \<open>n\<close> bytes, with \<open>0 < n < 2 ^ 31\<close> and \<open>n\<close> within the
  credit left at the remote end, is added at a new address, then \<^verbatim>\<open>send_data\<close> sends the new
  request whole, whatever requests were waiting before it.
\<close>

theorem requests_served_from_head:
  "rd_req (netpipe_add_request f p n O_RDONLY) = p # rd_req f
   \<and> wr_req (netpipe_add_request f p n O_WRONLY) = p # wr_req f
   \<and> (netpipe_recv f sz w = Some (r, f') \<and> 0 < r \<and> distinct (rd_req f) \<longrightarrow>
        (\<exists>done. rd_req f = done @ rd_req f'
           \<and> (\<forall>q\<in>set done. complete_req (heap f' q))
           \<and> (\<forall>q\<in>set (tl (rd_req f')). heap f' q = heap f q))
        \<and> (\<not> complete_req (heap f' (hd (rd_req f))) \<longrightarrow>
             (\<forall>q\<in>set (tl (rd_req f)). heap f' q = heap f q)))
   \<and> (p \<notin> set (rd_req f) \<and> distinct (rd_req f) \<and> cbuf_empty (buffer f)
        \<and> io f (ncalls f) = IoOk \<and> n \<noteq> 0 \<and> sz \<noteq> 0
        \<and> netpipe_recv (netpipe_add_request f p n O_RDONLY) sz w = Some (r1, f1) \<and> 0 < r1 \<longrightarrow>
        bytes_processed (heap f1 p) = (if n < sz then n else sz))
   \<and> (send_data g = (m, g') \<and> distinct (wr_req g) \<longrightarrow>
        (\<exists>done. wr_req g = done @ wr_req g'
           \<and> (\<forall>q\<in>set (butlast done). complete_req (heap g' q))
           \<and> (\<forall>q\<in>set (tl (wr_req g')). heap g' q = heap g q))
        \<and> (\<not> complete_req (heap g' (hd (wr_req g))) \<longrightarrow>
             (\<forall>q\<in>set (tl (wr_req g)). heap g' q = heap g q)))
   \<and> (p \<notin> set (wr_req g) \<and> distinct (wr_req g) \<and> cbuf_empty (buffer g)
        \<and> io g (ncalls g) = IoOk \<and> n \<noteq> 0 \<and> n \<le> available_remote g \<and> unat n < 2 ^ 31
        \<and> send_data (netpipe_add_request g p n O_WRONLY) = (m1, g1) \<longrightarrow>
        bytes_processed (heap g1 p) = n)"
proof (intro conjI impI)
  show "rd_req (netpipe_add_request f p n O_RDONLY) = p # rd_req f"
    by (simp add: netpipe_add_request_def Let_def)
  show "wr_req (netpipe_add_request f p n O_WRONLY) = p # wr_req f"
    by (simp add: netpipe_add_request_def Let_def O_RDONLY_def O_WRONLY_def)
next
  assume a: "netpipe_recv f sz w = Some (r, f') \<and> 0 < r \<and> distinct (rd_req f)"
  then have "front_only complete_req f (rd_req f) f' (rd_req f')"
    using netpipe_recv_front [of f sz w r f'] by simp
  with a show "\<exists>done. rd_req f = done @ rd_req f'
           \<and> (\<forall>q\<in>set done. complete_req (heap f' q))
           \<and> (\<forall>q\<in>set (tl (rd_req f')). heap f' q = heap f q)"
    using front_only_tl by blast
next
  assume a: "netpipe_recv f sz w = Some (r, f') \<and> 0 < r \<and> distinct (rd_req f)"
    and nc: "\<not> complete_req (heap f' (hd (rd_req f)))"
  from a have fo: "front_only complete_req f (rd_req f) f' (rd_req f')"
    using netpipe_recv_front [of f sz w r f'] by simp
  show "\<forall>q\<in>set (tl (rd_req f)). heap f' q = heap f q"
  proof (cases "rd_req f")
    case Nil
    then show ?thesis by simp
  next
    case (Cons a as)
    with fo nc a front_only_starve [of f a as f' "rd_req f'"] show ?thesis by simp
  qed
next
  assume a: "p \<notin> set (rd_req f) \<and> distinct (rd_req f) \<and> cbuf_empty (buffer f)
        \<and> io f (ncalls f) = IoOk \<and> n \<noteq> 0 \<and> sz \<noteq> 0
        \<and> netpipe_recv (netpipe_add_request f p n O_RDONLY) sz w = Some (r1, f1) \<and> 0 < r1"
  then show "bytes_processed (heap f1 p) = (if n < sz then n else sz)"
    using newest_reader_first [of p f n sz w r1 f1] by blast
next
  assume a: "send_data g = (m, g') \<and> distinct (wr_req g)"
  then have "front_only complete_req g (wr_req g) g' (wr_req g')
           \<or> err_front g (wr_req g) g' (wr_req g')"
    using send_data_front [of g m g'] by simp
  with a show "\<exists>done. wr_req g = done @ wr_req g'
           \<and> (\<forall>q\<in>set (butlast done). complete_req (heap g' q))
           \<and> (\<forall>q\<in>set (tl (wr_req g')). heap g' q = heap g q)"
    using front_only_tl_butlast err_front_tl by blast
next
  assume a: "send_data g = (m, g') \<and> distinct (wr_req g)"
    and nc: "\<not> complete_req (heap g' (hd (wr_req g)))"
  from a have fo: "front_only complete_req g (wr_req g) g' (wr_req g')
           \<or> err_front g (wr_req g) g' (wr_req g')"
    using send_data_front [of g m g'] by simp
  show "\<forall>q\<in>set (tl (wr_req g)). heap g' q = heap g q"
  proof (cases "wr_req g")
    case Nil
    then show ?thesis by simp
  next
    case (Cons a as)
    with fo nc a front_only_starve [of g a as g' "wr_req g'"]
      err_front_starve [of g a as g' "wr_req g'"]
    show ?thesis by auto
  qed
next
  assume a: "p \<notin> set (wr_req g) \<and> distinct (wr_req g) \<and> cbuf_empty (buffer g)
        \<and> io g (ncalls g) = IoOk \<and> n \<noteq> 0 \<and> n \<le> available_remote g \<and> unat n < 2 ^ 31
        \<and> send_data (netpipe_add_request g p n O_WRONLY) = (m1, g1)"
  then show "bytes_processed (heap g1 p) = n"
    using newest_writer_first [of p g n m1 g1] by blast
qed

definition one_reader :: netpipe where
  "one_reader = netpipe_add_request (netpipe_alloc 16 16 (\<lambda>k. IoOk)) 1 2 O_RDONLY"

definition three_readers :: netpipe where
  "three_readers = netpipe_add_request two_readers 3 2 O_RDONLY"

definition four_writers :: netpipe where
  "four_writers =
     netpipe_add_request (netpipe_add_request (netpipe_add_request (netpipe_add_request
       (netpipe_alloc 0 5 (\<lambda>k. IoOk)) 1 2 O_WRONLY) 2 2 O_WRONLY) 3 2 O_WRONLY) 4 2 O_WRONLY"

definition one_writer :: netpipe where
  "one_writer = netpipe_add_request (netpipe_alloc 0 2 (\<lambda>k. IoOk)) 1 2 O_WRONLY"

definition starved_writers :: netpipe where
  "starved_writers =
     netpipe_add_request
       (netpipe_add_request (netpipe_alloc 0 1 (\<lambda>k. IoOk)) 1 2 O_WRONLY) 2 2 O_WRONLY"

lemmas recv_eval_defs =
  netpipe_recv_def netpipe_add_request_def netpipe_alloc_def O_RDONLY_def O_WRONLY_def Let_def
  cbuf_empty_def recv_loop2.simps recv_sock_iter_def socket_call_def io_value_def
  add_processed_def req_done_def recv_readahead_def recv_finish_def size_to_int_def
  loop_poll_notify_def broadcast_def complete_req_def

lemmas send_eval_defs =
  send_data_def do_flush_def do_send_def send_req_iter_def writeahead_iter_def
  netpipe_add_request_def netpipe_alloc_def O_RDONLY_def O_WRONLY_def Let_def
  cbuf_size_def cbuf_full_def cbuf_put_def available_remote_def socket_call_def io_value_def
  to_int_def add_processed_def req_done_def loop_poll_notify_def complete_req_def

lemma three_readers_recv_state:
  "\<exists>f'. netpipe_recv three_readers 3 False = Some (3, f') \<and> rd_req f' = [2, 1]"
  by (simp add: three_readers_def two_readers_def recv_eval_defs)

lemma one_reader_recv_state:
  "\<exists>f'. netpipe_recv (netpipe_add_request one_reader 2 2 O_RDONLY) 2 False = Some (2, f')"
  by (simp add: one_reader_def recv_eval_defs)

lemma two_readers_recv_state:
  "\<exists>f'. netpipe_recv two_readers 1 False = Some (1, f')
        \<and> bytes_processed (heap f' 2) = 1 \<and> \<not> complete_req (heap f' 2)"
  by (simp add: two_readers_def recv_eval_defs)

lemma four_writers_send_state:
  "wr_req four_writers = [4, 3, 2, 1] \<and> wr_req (snd (send_data four_writers)) = [2, 1]"
  by (simp add: four_writers_def send_eval_defs)

lemma starved_writers_send_state:
  "wr_req starved_writers = [2, 1]
   \<and> bytes_processed (heap (snd (send_data starved_writers)) 2) = 1
   \<and> \<not> complete_req (heap (snd (send_data starved_writers)) 2)"
  by (simp add: starved_writers_def send_eval_defs)

theorem requests_served_from_head_witness:
  "\<exists>fa ga fb gb fc gc.
     netpipe_recv three_readers 3 False = Some (3, fa) \<and> distinct (rd_req three_readers)
     \<and> rd_req three_readers = [3, 2, 1] \<and> rd_req fa = [2, 1]
     \<and> complete_req (heap fa 3) \<and> heap fa 1 = heap three_readers 1
     \<and> snd (send_data four_writers) = ga \<and> distinct (wr_req four_writers)
     \<and> wr_req four_writers = [4, 3, 2, 1] \<and> wr_req ga = [2, 1]
     \<and> complete_req (heap ga 4) \<and> heap ga 1 = heap four_writers 1
     \<and> netpipe_recv (netpipe_add_request one_reader 2 2 O_RDONLY) 2 False = Some (2, fb)
     \<and> rd_req one_reader = [1] \<and> bytes_processed (heap fb 2) = 2
     \<and> snd (send_data starved_writers) = gb \<and> wr_req starved_writers = [2, 1]
     \<and> \<not> complete_req (heap gb 2) \<and> heap gb 1 = heap starved_writers 1
     \<and> netpipe_recv two_readers 1 False = Some (1, fc) \<and> rd_req two_readers = [2, 1]
     \<and> \<not> complete_req (heap fc 2) \<and> heap fc 1 = heap two_readers 1
     \<and> snd (send_data (netpipe_add_request one_writer 2 2 O_WRONLY)) = gc
     \<and> wr_req one_writer = [1] \<and> available_remote one_writer = 2
     \<and> bytes_processed (heap gc 2) = 2"
proof -
  obtain fa where a: "netpipe_recv three_readers 3 False = Some (3, fa)"
    and qa: "rd_req fa = [2, 1]"
    using three_readers_recv_state by blast
  have q3: "rd_req three_readers = [3, 2, 1]"
    by (simp add: three_readers_def netpipe_add_request_def two_readers_queue Let_def)
  obtain ma ga where sa: "send_data four_writers = (ma, ga)" by force
  have q4: "wr_req four_writers = [4, 3, 2, 1]" and qg: "wr_req ga = [2, 1]"
    using four_writers_send_state sa by simp_all
  obtain fb where b: "netpipe_recv (netpipe_add_request one_reader 2 2 O_RDONLY) 2 False
                        = Some (2, fb)"
    using one_reader_recv_state by blast
  have q1: "rd_req one_reader = [1]" and b1: "cbuf_empty (buffer one_reader)"
    and i1: "io one_reader (ncalls one_reader) = IoOk"
    by (simp_all add: one_reader_def netpipe_add_request_def netpipe_alloc_def Let_def
          cbuf_empty_def)
  obtain mb gb where sb: "send_data starved_writers = (mb, gb)" by force
  have q2: "wr_req starved_writers = [2, 1]" and ng: "\<not> complete_req (heap gb 2)"
    using starved_writers_send_state sb by simp_all
  obtain fc where c: "netpipe_recv two_readers 1 False = Some (1, fc)"
    and nc: "\<not> complete_req (heap fc 2)"
    using two_readers_recv_state by blast
  obtain mc gc where sc': "send_data (netpipe_add_request one_writer 2 2 O_WRONLY) = (mc, gc)"
    by force
  have w1: "wr_req one_writer = [1]" and w2: "cbuf_empty (buffer one_writer)"
    and w3: "io one_writer (ncalls one_writer) = IoOk" and w4: "available_remote one_writer = 2"
    by (simp_all add: one_writer_def netpipe_add_request_def netpipe_alloc_def Let_def
          cbuf_empty_def available_remote_def O_RDONLY_def O_WRONLY_def)
  have u: "unat (2 :: size_t) < 2 ^ 31" by simp
  have da: "distinct (rd_req three_readers)" using q3 by simp
  have dw4: "distinct (wr_req four_writers)" using q4 by simp
  have ds2: "distinct (wr_req starved_writers)" using q2 by simp
  have dr2: "distinct (rd_req two_readers)" using two_readers_queue by simp
  note A = requests_served_from_head [where f = three_readers and sz = 3 and w = False
      and r = 3 and f' = fa and g = four_writers and m = ma and g' = ga]
  note B = requests_served_from_head [where f = one_reader and p = 2 and n = 2 and sz = 2
      and w = False and ?r1.0 = 2 and ?f1.0 = fb and g = starved_writers and m = mb and g' = gb]
  note C = requests_served_from_head [where f = two_readers and sz = 1 and w = False
      and r = 1 and f' = fc and g = one_writer and p = 2 and n = 2 and ?m1.0 = mc
      and ?g1.0 = gc]
  note A3 = A [THEN conjunct2, THEN conjunct2, THEN conjunct1, THEN mp, THEN conjunct1]
  note A5 = A [THEN conjunct2, THEN conjunct2, THEN conjunct2, THEN conjunct2, THEN conjunct1,
      THEN mp, THEN conjunct1]
  note B4 = B [THEN conjunct2, THEN conjunct2, THEN conjunct2, THEN conjunct1, THEN mp]
  note B5 = B [THEN conjunct2, THEN conjunct2, THEN conjunct2, THEN conjunct2, THEN conjunct1,
      THEN mp, THEN conjunct2, THEN mp]
  note C3 = C [THEN conjunct2, THEN conjunct2, THEN conjunct1, THEN mp, THEN conjunct2, THEN mp]
  note C6 = C [THEN conjunct2, THEN conjunct2, THEN conjunct2, THEN conjunct2, THEN conjunct2,
      THEN mp]
  have "\<exists>done. rd_req three_readers = done @ rd_req fa
           \<and> (\<forall>q\<in>set done. complete_req (heap fa q))
           \<and> (\<forall>q\<in>set (tl (rd_req fa)). heap fa q = heap three_readers q)"
    using a da by (intro A3) simp
  then obtain dn where dn: "[3, 2, 1] = dn @ [2, 1]"
    "\<forall>q\<in>set dn. complete_req (heap fa q)" "heap fa 1 = heap three_readers 1"
    unfolding q3 qa by auto
  from dn(1) have "dn = [3]" by (cases dn) auto
  with dn(2) have ca: "complete_req (heap fa 3)" by simp
  have "\<exists>done. wr_req four_writers = done @ wr_req ga
           \<and> (\<forall>q\<in>set (butlast done). complete_req (heap ga q))
           \<and> (\<forall>q\<in>set (tl (wr_req ga)). heap ga q = heap four_writers q)"
    using sa dw4 by (intro A5) simp
  then obtain dw where dw: "[4, 3, 2, 1] = dw @ [2, 1]"
    "\<forall>q\<in>set (butlast dw). complete_req (heap ga q)" "heap ga 1 = heap four_writers 1"
    unfolding q4 qg by auto
  from dw(1) have "dw = [4, 3]" by (cases dw; cases "tl dw") auto
  with dw(2) have cg: "complete_req (heap ga 4)" by simp
  have pb: "bytes_processed (heap fb 2) = (if (2 :: size_t) < 2 then 2 else 2)"
    using b q1 b1 i1 by (intro B4) simp
  have "\<forall>q\<in>set (tl (wr_req starved_writers)). heap gb q = heap starved_writers q"
    using sb ds2 ng q2 by (intro B5) simp_all
  then have sg: "heap gb 1 = heap starved_writers 1" unfolding q2 by simp
  have "\<forall>q\<in>set (tl (rd_req two_readers)). heap fc q = heap two_readers q"
    using c dr2 nc two_readers_queue by (intro C3) simp_all
  then have sc: "heap fc 1 = heap two_readers 1" unfolding two_readers_queue by simp
  have pc: "bytes_processed (heap gc 2) = 2"
    using sc' w1 w2 w3 w4 u by (intro C6) simp
  have sa': "snd (send_data four_writers) = ga" and sb': "snd (send_data starved_writers) = gb"
    and sc'': "snd (send_data (netpipe_add_request one_writer 2 2 O_WRONLY)) = gc"
    using sa sb sc' by simp_all
  from pb have pb': "bytes_processed (heap fb 2) = 2" by simp
  show ?thesis
    apply (rule exI [of _ fa], rule exI [of _ ga], rule exI [of _ fb], rule exI [of _ gb],
        rule exI [of _ fc], rule exI [of _ gc])
    apply (intro conjI)
    apply (rule a da q3 qa ca dn(3) sa' dw4 q4 qg cg dw(3) b q1 pb' sb' q2 ng sg c
          two_readers_queue nc sc sc'' w1 w4 pc)+
    done
qed

section \<open>A blocked read whose writer goes away\<close>

text \<open>
  Claim C2: a blocked \<^verbatim>\<open>netpipe_read\<close> whose request is ended with the error \<^verbatim>\<open>EPIPE\<close> after
  zero bytes returns 0, the end of file. The code assigns \<^verbatim>\<open>read = 0\<close> for that error and then
  runs \<^verbatim>\<open>read = -1\<close>, which stands after the conditional and not inside it. Below, a reader
  blocks asking for 4 bytes, the peer closes its write side (\<^verbatim>\<open>netpipe_close_update\<close> stores
  \<^verbatim>\<open>EPIPE\<close> in the request), and the woken call returns -1 with \<^verbatim>\<open>errno\<close> left as it was.
\<close>

theorem read_after_peer_close:
  "waiting (netpipe_read_begin reader_pipe 1 4 False) = Some (0, 4) \<and>
   result_of (netpipe_read_wake
      (snd (netpipe_close_update (pipe_of (netpipe_read_begin reader_pipe 1 4 False)) O_WRONLY))
      1 0 4) = Some (- 1, None)"
  by (simp add: netpipe_read_begin_def netpipe_read_wake_def netpipe_close_update_def
        set_error_all_def free_if_unused_def reader_pipe_def eval_defs)

section \<open>What a blocked send returns\<close>

text \<open>
  Claim C3, as stated, fails: a blocking send of 40 bytes to a pipe with 16 bytes of remote
  credit and a 16 byte buffer has 32 bytes accepted (16 sent, 16 written ahead) and waits for
  the last 8. Woken by \<^verbatim>\<open>netpipe_force_exit\<close> before the request made progress it returns -1
  with \<^verbatim>\<open>EPIPE\<close>, although the total accepted is 32.
\<close>

theorem send_wake_counterexample:
  "waiting (netpipe_send_begin writer_pipe 1 40 False) = Some (32, 8) \<and>
   result_of (netpipe_send_wake
      (snd (netpipe_force_exit (pipe_of (netpipe_send_begin writer_pipe 1 40 False))))
      1 32 8) = Some (- 1, Some EPIPE)"
  by (simp add: netpipe_send_begin_def netpipe_send_wake_def netpipe_force_exit_def
        writer_pipe_def eval_defs)

lemma do_flush_wr_req:
  "do_flush f = (err, f1, bytes) \<Longrightarrow> wr_req f1 = wr_req f"
  by (auto simp: do_flush_def Let_def split: if_splits prod.splits dest!: socket_call_frame)

lemma do_send_wr_req:
  "do_send f sz = (err, f1, bytes) \<Longrightarrow> wr_req f1 = wr_req f"
  by (auto simp: do_send_def Let_def split: if_splits prod.splits dest!: socket_call_frame)

lemma netpipe_send_begin_Waits:
  assumes "netpipe_send_begin f0 p sz nonblock = Waits f1 sent remaining"
  shows "\<not> nonblock \<and> remaining = sz - sent \<and> wr_req f1 = p # wr_req f0"
proof -
  from assms have ok: "\<not> (force_exit f0 \<or> readers f0 = 0)"
    by (auto simp: netpipe_send_begin_def)
  obtain err g1 bytes where fl: "do_flush f0 = (err, g1, bytes)" by (metis prod_cases3)
  with assms ok have e1: "\<not> err \<le> 0" by (auto simp: netpipe_send_begin_def)
  let ?g2 = "if bytes > 0 then broadcast Wr g1 else g1"
  have w2: "wr_req ?g2 = wr_req f0" using do_flush_wr_req [OF fl] by (simp add: broadcast_def)
  obtain err2 g3 s where ds:
    "(if available_remote ?g2 > 0 \<and> cbuf_empty (buffer ?g2) then do_send ?g2 sz else (1, ?g2, 0))
       = (err2, g3, s)" by (metis prod_cases3)
  have w3: "wr_req g3 = wr_req f0"
    using ds w2 by (auto split: if_splits dest: do_send_wr_req)
  obtain b k where cp: "cbuf_put (buffer g3) sz = (b, k)" by force
  from assms ok fl e1 ds cp
  have "\<not> nonblock \<and> sent = s + k \<and> remaining = sz - (s + k)
        \<and> f1 = netpipe_add_request (g3\<lparr>buffer := b\<rparr>) p (sz - (s + k)) O_WRONLY"
    by (auto simp: netpipe_send_begin_def Let_def split: if_splits)
  with w3 show ?thesis
    by (simp add: netpipe_add_request_def Let_def O_RDONLY_def O_WRONLY_def)
qed

text \<open>
  Claim C3, amended: a \<^verbatim>\<open>netpipe_send\<close> that enqueued a request (so it was called blocking,
  for the remainder \<open>sz - sent\<close>) and wakes with \<^verbatim>\<open>force_exit\<close> set or an error in its
  request fails, with that error or else \<^verbatim>\<open>EPIPE\<close>, when the request itself processed zero
  bytes, whatever was sent directly or written ahead before; otherwise it returns the bytes
  sent directly and written ahead plus the progress of the request.
\<close>

theorem send_wake_result:
  assumes "netpipe_send_begin f0 p sz nonblock = Waits f1 sent remaining"
    and "netpipe_send_wake f p sent remaining = Some (r, f')"
    and "force_exit f \<or> error (heap f p) \<noteq> None"
  shows "\<not> nonblock \<and> remaining = sz - sent \<and> wr_req f1 = p # wr_req f0
       \<and> (bytes_processed (heap f p) = 0 \<longrightarrow>
            r = - 1 \<and> errno_var f' = Some (case error (heap f p) of Some e \<Rightarrow> e | None \<Rightarrow> EPIPE))
       \<and> (bytes_processed (heap f p) \<noteq> 0 \<longrightarrow>
            r = sint (sent + bytes_processed (heap f p)) \<and> f' = f)"
proof -
  from assms(2,3) have
    "(bytes_processed (heap f p) = 0 \<longrightarrow>
        r = - 1 \<and> errno_var f' = Some (case error (heap f p) of Some e \<Rightarrow> e | None \<Rightarrow> EPIPE))
     \<and> (bytes_processed (heap f p) \<noteq> 0 \<longrightarrow>
        r = sint (sent + bytes_processed (heap f p)) \<and> f' = f)"
    by (auto simp: netpipe_send_wake_def split: if_splits option.splits)
  with netpipe_send_begin_Waits [OF assms(1)] show ?thesis by simp
qed

definition blocked_writer :: netpipe where
  "blocked_writer = pipe_of (netpipe_send_begin writer_pipe 1 40 False)"

theorem send_wake_result_witness:
  "netpipe_send_begin writer_pipe 1 40 False = Waits blocked_writer 32 8
   \<and> netpipe_send_wake (snd (netpipe_force_exit blocked_writer)) 1 32 8
       = Some (- 1, (snd (netpipe_force_exit blocked_writer))\<lparr>errno_var := Some EPIPE\<rparr>)
   \<and> force_exit (snd (netpipe_force_exit blocked_writer))
   \<and> wr_req blocked_writer = [1]"
proof -
  have b: "netpipe_send_begin writer_pipe 1 40 False = Waits blocked_writer 32 8"
    by (simp add: blocked_writer_def netpipe_send_begin_def writer_pipe_def eval_defs)
  have w: "netpipe_send_wake (snd (netpipe_force_exit blocked_writer)) 1 32 8
       = Some (- 1, (snd (netpipe_force_exit blocked_writer))\<lparr>errno_var := Some EPIPE\<rparr>)"
    by (simp add: blocked_writer_def netpipe_send_begin_def netpipe_send_wake_def
          netpipe_force_exit_def writer_pipe_def eval_defs)
  have e: "force_exit (snd (netpipe_force_exit blocked_writer))
           \<or> error (heap (snd (netpipe_force_exit blocked_writer)) 1) \<noteq> None"
    by (simp add: netpipe_force_exit_def broadcast_def)
  have q: "wr_req writer_pipe = []" by (simp add: writer_pipe_def netpipe_alloc_def)
  from send_wake_result [OF b w e] b w q show ?thesis
    by (simp add: netpipe_force_exit_def broadcast_def)
qed

section \<open>Closing the last writer\<close>





















section \<open>Flushing an empty buffer\<close>

lemma do_flush_empty: "cbuf_size (buffer g) = 0 \<Longrightarrow> do_flush g = (1, g, 0)"
  by (simp add: do_flush_def cbuf_size_def Let_def word_gt_0)

text \<open>
  Claim C5, as stated, fails: on a pipe with a reader, not shut down, whose buffer is empty,
  \<^verbatim>\<open>netpipe_flush\<close> does not succeed. Nothing was sent, so
  \<^verbatim>\<open>return datasent ? datasent : -1\<close> returns -1 (and \<^verbatim>\<open>errno\<close> is not set).
\<close>

theorem flush_empty_counterexample:
  "cbuf_size (buffer writer_pipe) = 0 \<and> readers writer_pipe = 1 \<and> \<not> force_exit writer_pipe \<and>
   returned (netpipe_flush_begin writer_pipe 1 False) = Some (- 1, None)"
  by (simp add: netpipe_flush_begin_def writer_pipe_def eval_defs)

text \<open>
  Claim C5, amended: on a pipe with readers and \<open>force_exit\<close> unset whose buffer holds zero
  bytes, \<^verbatim>\<open>netpipe_flush\<close> returns -1 without sending anything and without changing any field
  of the pipe (it only broadcasts \<^verbatim>\<open>wr\<close>), and calling it again gives the same result and
  again leaves the pipe as it was.
\<close>

theorem flush_empty_idempotent:
  assumes "readers f \<noteq> 0" and "\<not> force_exit f" and "cbuf_size (buffer f) = 0"
  shows "netpipe_flush_begin f p nonblock = Returns (- 1) (f\<lparr>trace := trace f @ [Broadcast Wr]\<rparr>)
       \<and> returned (netpipe_flush_begin (pipe_of (netpipe_flush_begin f p nonblock)) p nonblock)
           = returned (netpipe_flush_begin f p nonblock)
       \<and> (pipe_of (netpipe_flush_begin (pipe_of (netpipe_flush_begin f p nonblock)) p nonblock))
            \<lparr>trace := trace f\<rparr> = f"
proof -
  have 1: "netpipe_flush_begin g p nonblock
             = Returns (- 1) (g\<lparr>trace := trace g @ [Broadcast Wr]\<rparr>)"
    if "readers g \<noteq> 0" "\<not> force_exit g" "cbuf_size (buffer g) = 0" for g
    using that
    by (simp add: netpipe_flush_begin_def do_flush_empty broadcast_def cbuf_size_def Let_def)
  let ?g = "f\<lparr>trace := trace f @ [Broadcast Wr]\<rparr>"
  have 2: "netpipe_flush_begin ?g p nonblock
             = Returns (- 1) (?g\<lparr>trace := trace ?g @ [Broadcast Wr]\<rparr>)"
    using assms by (intro 1) simp_all
  show ?thesis using 1 [OF assms] 2 by (simp add: pipe_of_def returned_def)
qed

theorem flush_empty_idempotent_witness:
  "readers writer_pipe \<noteq> 0 \<and> \<not> force_exit writer_pipe \<and> cbuf_size (buffer writer_pipe) = 0
   \<and> netpipe_flush_begin writer_pipe 1 False
        = Returns (- 1) (writer_pipe\<lparr>trace := trace writer_pipe @ [Broadcast Wr]\<rparr>)"
proof -
  have h: "readers writer_pipe \<noteq> 0" "\<not> force_exit writer_pipe"
    "cbuf_size (buffer writer_pipe) = 0"
    by (simp_all add: writer_pipe_def netpipe_alloc_def cbuf_size_def)
  from flush_empty_idempotent [OF h, of 1 False] h show ?thesis by simp
qed

section \<open>Remote credit\<close>

text \<open>\<open>credit_inv\<close>: the bytes in flight do not exceed the credit. The two fields are
  compared and combined with \<^verbatim>\<open>size_t\<close> values throughout (\<^verbatim>\<open>netpipe.h\<close> is not among the
  sources); as unsigned words they satisfy \<open>0 \<le> remotesize\<close> always.\<close>

definition credit_inv :: "netpipe \<Rightarrow> bool" where
  "credit_inv f \<longleftrightarrow> remotesize f \<le> remotemax f"

lemma credit_add:
  fixes s m n :: size_t
  assumes "s \<le> m" and "n \<le> m - s"
  shows "s + n \<le> m \<and> unat s + unat n \<le> unat m"
proof -
  have "unat (m - s) = unat m - unat s" using assms(1) by (rule unat_sub)
  with assms have le: "unat s + unat n \<le> unat m" by (simp add: word_le_nat_alt)
  have "unat m < 2 ^ LENGTH(64)" by (rule unsigned_less)
  with le have "unat s + unat n < 2 ^ LENGTH(64)" by linarith
  then have "unat (s + n) = unat s + unat n" by (simp only: unat_add_lem)
  with le show ?thesis by (simp add: word_le_nat_alt)
qed

lemma credit_sub:
  fixes s m n :: size_t
  assumes "s \<le> m" and "n \<le> s"
  shows "s - n \<le> m - n"
proof -
  have "n \<le> m" using assms by simp
  then have "unat (m - n) = unat m - unat n" by (rule unat_sub)
  moreover have "unat (s - n) = unat s - unat n" using assms(2) by (rule unat_sub)
  ultimately show ?thesis using assms by (simp add: word_le_nat_alt)
qed

lemma credit_grow:
  fixes s m n :: size_t
  assumes "s \<le> m" and "unat m + unat n < 2 ^ 64"
  shows "s \<le> m + n"
proof -
  have "unat m + unat n < 2 ^ LENGTH(64)" using assms(2) by simp
  then have "unat (m + n) = unat m + unat n" by (simp only: unat_add_lem)
  with assms(1) show ?thesis by (simp add: word_le_nat_alt)
qed

lemma credit_inv_frame [simp]:
  "credit_inv (add_processed f p n) = credit_inv f"
  "credit_inv (set_error f p e) = credit_inv f"
  "credit_inv (broadcast c f) = credit_inv f"
  "credit_inv (loop_poll_notify f) = credit_inv f"
  "credit_inv (f\<lparr>wr_req := q\<rparr>) = credit_inv f"
  "credit_inv (f\<lparr>buffer := b\<rparr>) = credit_inv f"
  "credit_inv (f\<lparr>errno_var := x\<rparr>) = credit_inv f"
  "credit_inv (netpipe_add_request f p n mode) = credit_inv f"
  by (simp_all add: credit_inv_def add_processed_def set_error_def broadcast_def
        loop_poll_notify_def netpipe_add_request_def Let_def)

lemma socket_call_trace:
  assumes "socket_call f ev n = (r, g)"
  shows "(r = uint n \<and> trace g = trace f @ [ev]) \<or> ((r = 0 \<or> r = - 1) \<and> trace g = trace f)"
  using assms
  by (cases "io f (ncalls f)") (auto simp: socket_call_def io_value_def Let_def)

lemma credit_add_le:
  fixes s m n k :: size_t
  assumes "s \<le> m" and "n \<le> m - s" and "k \<le> n"
  shows "s + k \<le> m"
proof -
  from assms(2,3) have "k \<le> m - s" by simp
  with credit_add [OF assms(1)] show ?thesis by blast
qed

lemma do_send_credit:
  assumes "credit_inv f" and "do_send f sz = (err, f1, n)"
  shows "credit_inv f1 \<and>
         (trace f1 = trace f \<or>
          (\<exists>k. trace f1 = trace f @ [SendWrite k]
             \<and> unat (remotesize f) + unat k \<le> unat (remotemax f)))"
proof (cases "(if sz < available_remote f then sz else available_remote f) = 0")
  case True
  with assms show ?thesis by (auto simp: do_send_def Let_def)
next
  case False
  let ?n = "if sz < available_remote f then sz else available_remote f"
  obtain r g where sc: "socket_call f (SendWrite ?n) ?n = (r, g)" by force
  note fr = socket_call_frame [OF sc]
  have le: "?n \<le> remotemax f - remotesize f"
    by (auto simp: available_remote_def)
  from assms(1) have inv: "remotesize f \<le> remotemax f" by (simp add: credit_inv_def)
  note ca = credit_add [OF inv le]
  have tr: "trace g = trace f \<or> trace g = trace f @ [SendWrite ?n]"
    using socket_call_trace [OF sc] by blast
  show ?thesis
  proof (cases "0 < to_int r")
    case pos: True
    with assms(2) False sc
    have f1: "f1 = g\<lparr>remotesize := remotesize g + word_of_int (to_int r)\<rparr>"
      by (auto simp: do_send_def Let_def)
    from socket_call_count [OF sc pos] have "(word_of_int (to_int r) :: size_t) \<le> ?n" by blast
    from credit_add_le [OF inv le this] f1 fr have "credit_inv f1"
      by (simp add: credit_inv_def)
    moreover have "trace f1 = trace g" using f1 by simp
    ultimately show ?thesis using tr ca by auto
  next
    case neg: False
    with assms(2) False sc have "f1 = g" by (auto simp: do_send_def Let_def)
    with fr inv tr ca show ?thesis by (auto simp: credit_inv_def)
  qed
qed

lemma do_flush_credit:
  assumes "credit_inv f" and "do_flush f = (err, f1, n)"
  shows "credit_inv f1 \<and>
         (trace f1 = trace f \<or>
          (\<exists>k. trace f1 = trace f @ [SendFlush k]
             \<and> unat (remotesize f) + unat k \<le> unat (remotemax f)))"
proof (cases "(if cbuf_size (buffer f) < available_remote f then cbuf_size (buffer f)
               else available_remote f) = 0")
  case True
  with assms show ?thesis by (auto simp: do_flush_def Let_def)
next
  case False
  let ?n = "if cbuf_size (buffer f) < available_remote f then cbuf_size (buffer f)
            else available_remote f"
  obtain r g where sc: "socket_call f (SendFlush ?n) ?n = (r, g)" by force
  note fr = socket_call_frame [OF sc]
  have le: "?n \<le> remotemax f - remotesize f"
    by (auto simp: available_remote_def)
  from assms(1) have inv: "remotesize f \<le> remotemax f" by (simp add: credit_inv_def)
  note ca = credit_add [OF inv le]
  have tr: "trace g = trace f \<or> trace g = trace f @ [SendFlush ?n]"
    using socket_call_trace [OF sc] by blast
  show ?thesis
  proof (cases "0 < to_int r")
    case pos: True
    with assms(2) False sc
    have f1: "f1 = g\<lparr>buffer := fst (cbuf_get (buffer g) ?n),
                      remotesize := remotesize g + word_of_int (to_int r)\<rparr>"
      by (auto simp: do_flush_def Let_def)
    from socket_call_count [OF sc pos] have "(word_of_int (to_int r) :: size_t) \<le> ?n" by blast
    from credit_add_le [OF inv le this] f1 fr have "credit_inv f1"
      by (simp add: credit_inv_def)
    moreover have "trace f1 = trace g" using f1 by simp
    ultimately show ?thesis using tr ca by auto
  next
    case neg: False
    with assms(2) False sc have "f1 = g" by (auto simp: do_flush_def Let_def)
    with fr inv tr ca show ?thesis by (auto simp: credit_inv_def)
  qed
qed

lemma send_req_iter_credit:
  assumes "credit_inv f"
  shows "case send_req_iter f p of Inl g \<Rightarrow> credit_inv g | Inr (g, d, n) \<Rightarrow> credit_inv g"
proof -
  obtain err g n where ds:
    "do_send f (size_req (heap f p) - bytes_processed (heap f p)) = (err, g, n)"
    by (metis prod_cases3)
  from do_send_credit [OF assms ds] have "credit_inv g" by simp
  with ds show ?thesis by (simp add: send_req_iter_def Let_def)
qed

definition credit1 :: "(size_t \<times> netpipe) + (netpipe \<times> nat list \<times> size_t) \<Rightarrow> bool" where
  "credit1 y = (case y of Inl (n, g) \<Rightarrow> credit_inv g | Inr (g, req, d) \<Rightarrow> credit_inv g)"

lemma send_loop1_credit: "credit_inv f \<Longrightarrow> credit1 (send_loop1 f req ds)"
proof (induction f req ds rule: send_loop1.induct)
  case (1 f datasent)
  then show ?case by (simp add: credit1_def)
next
  case (2 f p ps datasent)
  show ?case
  proof (cases "available_remote f > 0")
    case False
    with "2.prems" show ?thesis by (simp add: credit1_def)
  next
    case av: True
    then have nav: "\<not> \<not> available_remote f > 0" by simp
    note c = send_req_iter_credit [OF "2.prems", of p]
    show ?thesis
    proof (cases "send_req_iter f p")
      case (Inl g)
      with c av show ?thesis by (simp add: credit1_def)
    next
      case (Inr t)
      then obtain g d n where it: "send_req_iter f p = Inr (g, d, n)" by (cases t) auto
      with c have cg: "credit_inv g" by simp
      show ?thesis
      proof (cases d)
        case True
        then have dT: "d = True" by simp
        from "2.IH"(1) [OF nav it refl refl dT cg] av it True
        show ?thesis by simp
      next
        case F: False
        then have dF: "d = False" by simp
        from "2.IH"(2) [OF nav it refl refl dF cg] av it F
        show ?thesis by simp
      qed
    qed
  qed
qed

lemma writeahead_iter_credit:
  "writeahead_iter f p = (g, d, n) \<Longrightarrow> credit_inv g = credit_inv f"
  by (auto simp: writeahead_iter_def Let_def split: prod.splits)

lemma send_loop2_credit: "credit_inv f \<Longrightarrow> credit_inv (fst (send_loop2 f req ds))"
proof (induction f req ds rule: send_loop2.induct)
  case (1 f datasent)
  then show ?case by simp
next
  case (2 f p ps datasent)
  show ?case
  proof (cases "cbuf_full (buffer f)")
    case True
    with "2.prems" show ?thesis by simp
  next
    case nf: False
    obtain g d n where it: "writeahead_iter f p = (g, d, n)" by (metis prod_cases3)
    with "2.prems" have cg: "credit_inv g" by (simp add: writeahead_iter_credit)
    show ?thesis
    proof (cases d)
      case True
      then have dT: "d = True" by simp
      from "2.IH"(1) [OF nf it [symmetric] refl dT cg] nf it True show ?thesis by simp
    next
      case False
      then have dF: "d = False" by simp
      from "2.IH"(2) [OF nf it [symmetric] refl dF cg] nf it False show ?thesis by simp
    qed
  qed
qed

lemma send_data_credit:
  assumes "credit_inv f"
  shows "credit_inv (snd (send_data f))"
proof -
  obtain err f1 bytes where fl: "do_flush f = (err, f1, bytes)" by (metis prod_cases3)
  from do_flush_credit [OF assms fl] have c1: "credit_inv f1" by simp
  show ?thesis
  proof (cases "err \<le> 0")
    case True
    with fl c1 show ?thesis by (simp add: send_data_def)
  next
    case False
    let ?ds = "if bytes > 0 then bytes else 0"
    note l1 = send_loop1_credit [OF c1, of "wr_req f1" ?ds]
    show ?thesis
    proof (cases "send_loop1 f1 (wr_req f1) ?ds")
      case (Inl r)
      with l1 fl False show ?thesis
        by (cases r) (simp add: send_data_def Let_def credit1_def)
    next
      case (Inr t)
      then obtain f2 req2 ds2 where e1: "send_loop1 f1 (wr_req f1) ?ds = Inr (f2, req2, ds2)"
        by (cases t) auto
      with l1 have c2: "credit_inv (f2\<lparr>wr_req := req2\<rparr>)" by (simp add: credit1_def)
      obtain f4 req4 ds4 where e2: "send_loop2 (f2\<lparr>wr_req := req2\<rparr>) req2 ds2 = (f4, req4, ds4)"
        by (metis prod_cases3)
      from send_loop2_credit [OF c2, of req2 ds2] e2 have "credit_inv f4" by simp
      with fl False e1 e2 show ?thesis by (simp add: send_data_def Let_def)
    qed
  qed
qed

lemma after_send_data_credit: "credit_inv (snd (after_send_data r)) = credit_inv (snd r)"
  by (cases r) (simp add: after_send_data_def Let_def)

lemma netpipe_send_begin_credit:
  assumes "credit_inv f"
  shows "credit_inv (pipe_of (netpipe_send_begin f p sz nonblock))"
proof (cases "force_exit f \<or> readers f = 0")
  case True
  with assms show ?thesis by (simp add: netpipe_send_begin_def pipe_of_def)
next
  case ok: False
  obtain err g1 bytes where fl: "do_flush f = (err, g1, bytes)" by (metis prod_cases3)
  from do_flush_credit [OF assms fl] have c1: "credit_inv g1" by simp
  let ?g2 = "if bytes > 0 then broadcast Wr g1 else g1"
  have c2: "credit_inv ?g2" using c1 by simp
  obtain err2 g3 s where ds:
    "(if available_remote ?g2 > 0 \<and> cbuf_empty (buffer ?g2) then do_send ?g2 sz else (1, ?g2, 0))
       = (err2, g3, s)" by (metis prod_cases3)
  have c3: "credit_inv g3"
  proof (cases "available_remote ?g2 > 0 \<and> cbuf_empty (buffer ?g2)")
    case True
    with ds have "do_send ?g2 sz = (err2, g3, s)" by simp
    from do_send_credit [OF c2 this] show ?thesis by simp
  next
    case False
    with ds c2 show ?thesis by auto
  qed
  obtain b k where cp: "cbuf_put (buffer g3) sz = (b, k)" by force
  from ok fl ds cp c1 c3 show ?thesis
    by (simp add: netpipe_send_begin_def pipe_of_def Let_def)
qed

lemma netpipe_flush_begin_credit:
  assumes "credit_inv f"
  shows "credit_inv (pipe_of (netpipe_flush_begin f p nonblock))"
proof -
  obtain err g1 bytes where fl: "do_flush f = (err, g1, bytes)" by (metis prod_cases3)
  from do_flush_credit [OF assms fl] have c1: "credit_inv g1" by simp
  with assms fl show ?thesis
    by (simp add: netpipe_flush_begin_def pipe_of_def Let_def)
qed

text \<open>
  Claim C6, as stated, fails: the invariant is not kept whatever the peer sends.
  \<^verbatim>\<open>netpipe_read_update\<close> subtracts the acknowledged count from both fields without a check, so
  an acknowledgement of 1 byte on a fresh pipe, which has nothing in flight, wraps
  \<open>remotesize\<close> around to the largest \<^verbatim>\<open>size_t\<close> while \<open>remotemax\<close> becomes 15.
\<close>

theorem credit_invariant_counterexample:
  "credit_inv fresh_pipe \<and> \<not> credit_inv (snd (netpipe_read_update fresh_pipe 1))"
  by (simp add: credit_inv_def netpipe_read_update_def after_send_data_def send_data_def
        size_to_int_def fresh_pipe_def word_order.extremum_unique eval_defs)

text \<open>
  Claim C6, amended: \<open>remotesize \<le> remotemax\<close> holds for the fresh pipe and is kept by
  \<^verbatim>\<open>do_send\<close>, \<^verbatim>\<open>do_flush\<close>, \<^verbatim>\<open>send_data\<close>, \<^verbatim>\<open>netpipe_send\<close> and \<^verbatim>\<open>netpipe_flush\<close>, by
  \<^verbatim>\<open>netpipe_read_request\<close> when the granted credit does not overflow \<^verbatim>\<open>size_t\<close>, and by
  \<^verbatim>\<open>netpipe_read_update\<close> when the peer acknowledges no more than is in flight (these are the
  functions that write the two fields); and where the invariant holds, every \<^verbatim>\<open>WRITE\<close> of \<open>k\<close>
  bytes that \<^verbatim>\<open>do_send\<close> or \<^verbatim>\<open>do_flush\<close> puts on the socket has
  \<open>remotesize + k \<le> remotemax\<close> at that moment.
\<close>

theorem credit_invariant:
  "credit_inv (netpipe_alloc cap rcap sock)
   \<and> (credit_inv f \<longrightarrow>
        (\<forall>sz err f1 n. do_send f sz = (err, f1, n) \<longrightarrow>
           credit_inv f1 \<and>
           (trace f1 = trace f \<or>
            (\<exists>k. trace f1 = trace f @ [SendWrite k]
               \<and> unat (remotesize f) + unat k \<le> unat (remotemax f))))
      \<and> (\<forall>err f1 n. do_flush f = (err, f1, n) \<longrightarrow>
           credit_inv f1 \<and>
           (trace f1 = trace f \<or>
            (\<exists>k. trace f1 = trace f @ [SendFlush k]
               \<and> unat (remotesize f) + unat k \<le> unat (remotemax f))))
      \<and> credit_inv (snd (send_data f))
      \<and> credit_inv (pipe_of (netpipe_send_begin f p sz nonblock))
      \<and> credit_inv (pipe_of (netpipe_flush_begin f p nonblock))
      \<and> (unat (remotemax f) + unat m < 2 ^ 64 \<longrightarrow> credit_inv (snd (netpipe_read_request f m)))
      \<and> (m \<le> remotesize f \<longrightarrow> credit_inv (snd (netpipe_read_update f m))))"
proof (intro conjI impI allI)
  show "credit_inv (netpipe_alloc cap rcap sock)"
    by (simp add: credit_inv_def netpipe_alloc_def)
next
  fix sz err f1 n
  assume "credit_inv f" and "do_send f sz = (err, f1, n)"
  then show "credit_inv f1" using do_send_credit by blast
next
  fix sz err f1 n
  assume "credit_inv f" and "do_send f sz = (err, f1, n)"
  then show "trace f1 = trace f \<or>
            (\<exists>k. trace f1 = trace f @ [SendWrite k]
               \<and> unat (remotesize f) + unat k \<le> unat (remotemax f))"
    using do_send_credit by blast
next
  fix err f1 n
  assume "credit_inv f" and "do_flush f = (err, f1, n)"
  then show "credit_inv f1" using do_flush_credit by blast
next
  fix err f1 n
  assume "credit_inv f" and "do_flush f = (err, f1, n)"
  then show "trace f1 = trace f \<or>
            (\<exists>k. trace f1 = trace f @ [SendFlush k]
               \<and> unat (remotesize f) + unat k \<le> unat (remotemax f))"
    using do_flush_credit by blast
next
  assume "credit_inv f"
  then show "credit_inv (snd (send_data f))" by (rule send_data_credit)
next
  assume "credit_inv f"
  then show "credit_inv (pipe_of (netpipe_send_begin f p sz nonblock))"
    by (rule netpipe_send_begin_credit)
next
  assume "credit_inv f"
  then show "credit_inv (pipe_of (netpipe_flush_begin f p nonblock))"
    by (rule netpipe_flush_begin_credit)
next
  assume c: "credit_inv f" and "unat (remotemax f) + unat m < 2 ^ 64"
  then have "credit_inv (f\<lparr>remotemax := remotemax f + m\<rparr>)"
    by (simp add: credit_inv_def credit_grow)
  then show "credit_inv (snd (netpipe_read_request f m))"
    by (simp add: netpipe_read_request_def after_send_data_credit send_data_credit)
next
  assume c: "credit_inv f" and "m \<le> remotesize f"
  then have "credit_inv (f\<lparr>remotemax := remotemax f - m, remotesize := remotesize f - m\<rparr>)"
    by (simp add: credit_inv_def credit_sub)
  then show "credit_inv (snd (netpipe_read_update f m))"
    by (simp add: netpipe_read_update_def after_send_data_credit send_data_credit)
qed

definition after_write :: netpipe where
  "after_write = fst (snd (do_send writer_pipe 4))"

lemma after_write_do_send: "do_send writer_pipe 4 = (1, after_write, 4)"
  by (simp add: after_write_def do_send_def writer_pipe_def eval_defs)

theorem credit_invariant_witness:
  "credit_inv writer_pipe
   \<and> do_send writer_pipe 4 = (1, after_write, 4)
   \<and> credit_inv after_write
   \<and> trace after_write = trace writer_pipe @ [SendWrite 4]
   \<and> 4 \<le> remotesize after_write
   \<and> credit_inv (snd (netpipe_read_update after_write 4))"
proof -
  have c0: "credit_inv writer_pipe"
    by (simp add: credit_inv_def writer_pipe_def netpipe_alloc_def)
  have t: "trace after_write = trace writer_pipe @ [SendWrite 4]"
    by (simp add: after_write_def do_send_def writer_pipe_def eval_defs)
  have r: "4 \<le> remotesize after_write"
    by (simp add: after_write_def do_send_def writer_pipe_def eval_defs)
  from credit_invariant [of 0 0 undefined writer_pipe 0 0 False 0] c0 after_write_do_send
  have c1: "credit_inv after_write" by blast
  from credit_invariant [of 0 0 undefined after_write 0 0 False 4] c1 r
  have "credit_inv (snd (netpipe_read_update after_write 4))" by blast
  with c0 c1 t r after_write_do_send show ?thesis by simp
qed

section \<open>A nonblocking send that moves nothing\<close>

text \<open>
  Claim C7, as stated, fails. With no remote credit and a full buffer a nonblocking send of
  4 bytes sets \<^verbatim>\<open>errno\<close> to \<^verbatim>\<open>EAGAIN\<close> but returns 0, not the -1 by which this file reports
  a failure (and which the callers in \<^verbatim>\<open>main.c\<close> test for): the caller is told that 0 bytes
  were written.
\<close>

definition full_writer :: netpipe where
  "full_writer = writer_pipe\<lparr>buffer := \<lparr>csize = 16, ccapacity = 16\<rparr>, remotesize := 16\<rparr>"

theorem nonblocking_send_counterexample:
  "returned (netpipe_send_begin full_writer 1 4 True) = Some (0, Some EAGAIN)"
  by (simp add: netpipe_send_begin_def full_writer_def writer_pipe_def eval_defs)

text \<open>
  Claim C7, amended: a nonblocking \<^verbatim>\<open>netpipe_send\<close> of at least one byte to a pipe that has
  readers and is not shut down, when there is no remote credit (nothing to flush or send) and
  the buffer is full (nothing written ahead), returns 0 at once with \<^verbatim>\<open>errno\<close> set to
  \<^verbatim>\<open>EAGAIN\<close>: no request is enqueued and nothing else in the pipe changes. (For a send of
  at least one byte these two conditions are the only way to move nothing: with credit left,
  a non-empty buffer is flushed and an empty one lets the direct send go.)
\<close>

theorem nonblocking_send_no_progress:
  assumes "\<not> force_exit f" and "readers f \<noteq> 0" and "sz \<noteq> 0"
    and "available_remote f = 0" and "cbuf_full (buffer f)"
  shows "netpipe_send_begin f p sz True = Returns 0 (f\<lparr>errno_var := Some EAGAIN\<rparr>)"
  using assms
  by (simp add: netpipe_send_begin_def do_flush_def cbuf_size_def cbuf_full_def cbuf_put_def
        Let_def)

theorem nonblocking_send_no_progress_witness:
  "\<not> force_exit full_writer \<and> readers full_writer \<noteq> 0 \<and> (4 :: size_t) \<noteq> 0
   \<and> available_remote full_writer = 0 \<and> cbuf_full (buffer full_writer)
   \<and> netpipe_send_begin full_writer 1 4 True = Returns 0 (full_writer\<lparr>errno_var := Some EAGAIN\<rparr>)"
proof -
  have h: "\<not> force_exit full_writer" "readers full_writer \<noteq> 0" "(4 :: size_t) \<noteq> 0"
    "available_remote full_writer = 0" "cbuf_full (buffer full_writer)"
    by (simp_all add: full_writer_def writer_pipe_def netpipe_alloc_def available_remote_def
          cbuf_full_def)
  from nonblocking_send_no_progress [OF h, of 1] h show ?thesis by simp
qed

section \<open>Opening without blocking\<close>

definition open_failure :: "open_result \<Rightarrow> (errno option \<times> int \<times> int) option" where
  "open_failure x =
     (case x of OpenFails g \<Rightarrow> Some (errno_var g, readers g, writers g)
      | Opens g \<Rightarrow> None | OpenWaits g \<Rightarrow> None)"

definition stale_pipe :: netpipe where
  "stale_pipe = fresh_pipe\<lparr>open_mode := O_RDONLY, readers := 0, writers := 1\<rparr>"

definition dying_pipe :: netpipe where
  "dying_pipe = fresh_pipe\<lparr>force_exit := True\<rparr>"

text \<open>
  Claim C8, as stated, fails: the tests of \<open>force_exit\<close> and of \<open>open_mode\<close> come before the
  nonblocking test. \<open>stale_pipe\<close> is a pipe that a local reader opened and closed while the
  remote writer stays (\<^verbatim>\<open>netpipe_close\<close> does not reset \<open>open_mode\<close>): a nonblocking open for
  writing finds no reader, and fails with \<^verbatim>\<open>EPERM\<close>. On \<open>dying_pipe\<close>, where \<open>force_exit\<close> is
  set, it fails with \<^verbatim>\<open>ENOENT\<close>.
\<close>

theorem nonblocking_open_counterexample:
  "readers stale_pipe = 0
   \<and> open_failure (netpipe_open_begin stale_pipe O_WRONLY True False) = Some (Some EPERM, 0, 1)
   \<and> readers dying_pipe = 0
   \<and> open_failure (netpipe_open_begin dying_pipe O_WRONLY True True) = Some (Some ENOENT, 0, 0)"
  by (simp add: open_failure_def netpipe_open_begin_def open_error_def stale_pipe_def
        dying_pipe_def fresh_pipe_def eval_defs)

text \<open>
  Claim C8, amended: a nonblocking \<^verbatim>\<open>netpipe_open\<close> made while the other side is absent (no
  writer for a reader, no reader for a writer) fails and leaves \<open>readers\<close> and \<open>writers\<close> as
  they were; nothing is sent or broadcast, and a pipe that this call created is removed and
  freed. The error is \<^verbatim>\<open>EAGAIN\<close> when the pipe is not shut down and not open in the other mode
  (the increment is then undone before the call returns), \<^verbatim>\<open>ENOENT\<close> when \<open>force_exit\<close> is set
  and \<^verbatim>\<open>EPERM\<close> when the pipe is open in the other mode.
\<close>

theorem nonblocking_open_try_again:
  assumes "mode = O_RDONLY \<or> mode = O_WRONLY"
    and "mode = O_RDONLY \<longrightarrow> writers f = 0"
    and "mode = O_WRONLY \<longrightarrow> readers f = 0"
  shows "\<exists>f'. netpipe_open_begin f mode True just_created = OpenFails f'
           \<and> readers f' = readers f \<and> writers f' = writers f
           \<and> trace f' = trace (open_error f just_created)
           \<and> errno_var f' =
               Some (if force_exit f then ENOENT
                     else if open_mode f \<noteq> NOT_OPEN \<and> open_mode f \<noteq> mode then EPERM
                     else EAGAIN)"
  using assms
  by (auto simp: netpipe_open_begin_def count_open_def undo_open_def open_error_def
        O_RDONLY_def O_WRONLY_def O_RDWR_def NOT_OPEN_def Let_def)

theorem nonblocking_open_try_again_witness:
  "(O_WRONLY = O_RDONLY \<or> O_WRONLY = O_WRONLY) \<and> readers fresh_pipe = 0
   \<and> \<not> force_exit fresh_pipe \<and> open_mode fresh_pipe = NOT_OPEN
   \<and> (\<exists>f'. netpipe_open_begin fresh_pipe O_WRONLY True True = OpenFails f'
           \<and> errno_var f' = Some EAGAIN
           \<and> readers f' = readers fresh_pipe \<and> writers f' = writers fresh_pipe
           \<and> trace f' = trace (open_error fresh_pipe True))"
proof -
  have h: "O_WRONLY = O_RDONLY \<or> O_WRONLY = O_WRONLY"
    "O_WRONLY = O_RDONLY \<longrightarrow> writers fresh_pipe = 0"
    "O_WRONLY = O_WRONLY \<longrightarrow> readers fresh_pipe = 0"
    by (simp_all add: fresh_pipe_def netpipe_alloc_def O_RDONLY_def O_WRONLY_def)
  have r: "readers fresh_pipe = 0" "\<not> force_exit fresh_pipe" "open_mode fresh_pipe = NOT_OPEN"
    by (simp_all add: fresh_pipe_def netpipe_alloc_def)
  from nonblocking_open_try_again [OF h, of True] h(1) r show ?thesis by auto
qed

section \<open>The wakeup flag of \<^verbatim>\<open>netpipe_recv\<close>\<close>

definition trace_after_recv :: "netpipe \<Rightarrow> size_t \<Rightarrow> bool \<Rightarrow> (int \<times> event list) option" where
  "trace_after_recv f sz w =
     (case netpipe_recv f sz w of None \<Rightarrow> None | Some (r, g) \<Rightarrow> Some (r, trace g))"

text \<open>
  Claim C9: the flag \<^verbatim>\<open>wakeup\<close> starts false, so \<^verbatim>\<open>rd\<close> is broadcast only when a pending read
  request was completed. The code declares \<^verbatim>\<open>int err, wakeup;\<close> and assigns the flag only
  when a request completes, so on the other paths \<^verbatim>\<open>if (wakeup)\<close> reads whatever the variable
  held. On a pipe with no pending read request the 2 bytes received are read ahead into the
  buffer; whether \<^verbatim>\<open>rd\<close> is broadcast is decided by that initial content alone.
\<close>

theorem recv_wakeup_not_initialised:
  "rd_req reader_pipe = [] \<and>
   trace_after_recv reader_pipe 2 True = Some (2, [ReadAhead 2, Broadcast Rd]) \<and>
   trace_after_recv reader_pipe 2 False = Some (2, [ReadAhead 2])"
  by (simp add: trace_after_recv_def netpipe_recv_def recv_loop2.simps recv_readahead_def
        recv_finish_def size_to_int_def cbuf_readn_def reader_pipe_def eval_defs)

section \<open>A remote open is always recorded\<close>

text \<open>
  Claim C10: \<^verbatim>\<open>netpipe_open_update\<close>, for a read or a write mode, increments the counter of
  that mode and broadcasts \<^verbatim>\<open>canopen\<close> whatever \<open>force_exit\<close> and \<open>open_mode\<close> are, and changes
  nothing else; on the same pipe the local \<^verbatim>\<open>netpipe_open\<close> is refused with \<^verbatim>\<open>ENOENT\<close> when
  \<open>force_exit\<close> is set and with \<^verbatim>\<open>EPERM\<close> when the pipe is open in the other mode, and then
  leaves both counters as they were.
\<close>

theorem open_update_unconditional:
  assumes "mode = O_RDONLY \<or> mode = O_WRONLY"
  shows "\<exists>f'. netpipe_open_update f mode just_created = Opens f'
           \<and> readers f' = readers f + (if mode = O_RDONLY then 1 else 0)
           \<and> writers f' = writers f + (if mode = O_WRONLY then 1 else 0)
           \<and> trace f' = trace f @ [Broadcast CanOpen]
           \<and> force_exit f' = force_exit f \<and> open_mode f' = open_mode f
           \<and> errno_var f' = errno_var f
           \<and> (force_exit f \<longrightarrow>
                (\<exists>g. netpipe_open_begin f mode nonblock just_created = OpenFails g
                      \<and> errno_var g = Some ENOENT
                      \<and> readers g = readers f \<and> writers g = writers f))
           \<and> (\<not> force_exit f \<and> open_mode f \<noteq> NOT_OPEN \<and> open_mode f \<noteq> mode \<longrightarrow>
                (\<exists>g. netpipe_open_begin f mode nonblock just_created = OpenFails g
                      \<and> errno_var g = Some EPERM
                      \<and> readers g = readers f \<and> writers g = writers f))"
  using assms
  by (auto simp: netpipe_open_update_def netpipe_open_begin_def count_open_def open_error_def
        broadcast_def O_RDONLY_def O_WRONLY_def O_RDWR_def NOT_OPEN_def)


definition closing_reader :: netpipe where
  "closing_reader = reader_pipe\<lparr>force_exit := True\<rparr>"

theorem open_update_unconditional_witness:
  "(O_WRONLY = O_RDONLY \<or> O_WRONLY = O_WRONLY) \<and> force_exit closing_reader
   \<and> open_mode closing_reader = O_RDONLY
   \<and> (\<exists>f'. netpipe_open_update closing_reader O_WRONLY False = Opens f'
         \<and> writers f' = 2 \<and> readers f' = 1 \<and> trace f' = [Broadcast CanOpen])
   \<and> (\<exists>g. netpipe_open_begin closing_reader O_WRONLY False False = OpenFails g
         \<and> errno_var g = Some ENOENT \<and> writers g = 1)"
proof -
  have h: "O_WRONLY = O_RDONLY \<or> O_WRONLY = O_WRONLY" by simp
  have e: "force_exit closing_reader" "open_mode closing_reader = O_RDONLY"
    "writers closing_reader = 1" "readers closing_reader = 1" "trace closing_reader = []"
    by (simp_all add: closing_reader_def reader_pipe_def netpipe_alloc_def)
  from open_update_unconditional [OF h, of closing_reader False False] e h
  show ?thesis by (auto simp: O_RDONLY_def O_WRONLY_def)
qed

end
